theory Spec2Isabelle
  imports Main "HOL-Library.Word" "HOL-Library.Monad_Syntax"
begin

unbundle bit_operations_syntax

section \<open>Bytes, Go slices and the store\<close>

text \<open>
  The package \<open>secretbox\<close> (file \<open>secretbox/secretbox.go\<close>) works on Go byte slices.
  A Go slice is a pointer into a backing array together with a length and a capacity;
  two slices may share one backing array (\<open>sliceForAppend\<close> returns two such slices),
  so the embedding keeps an explicit store of backing arrays and passes it through
  every operation that reads or writes a slice.

  A run-time panic of Go (index out of range, slice bounds out of range) is the value
  \<open>None\<close> of the option monad; every index and slice expression of the source is
  checked in the model the way the Go run time checks it.

  Lengths and indices are natural numbers: Go's \<open>int\<close> has 64 bits, and no slice is
  long enough for \<open>len(in) + n\<close> to wrap.
\<close>

type_synonym byte = "8 word"
type_synonym bytes = "byte list"

text \<open>
  A slice value: \<open>ptr\<close> names the backing array (\<open>None\<close> for the nil slice),
  \<open>off\<close> is the position of the slice's first element in that array, \<open>len\<close> and
  \<open>cap\<close> are Go's \<open>len(s)\<close> and \<open>cap(s)\<close>.
\<close>

record slice =
  ptr :: "nat option"
  off :: nat
  len :: nat
  cap :: nat

definition nil :: slice where
  "nil = \<lparr>ptr = None, off = 0, len = 0, cap = 0\<rparr>"

text \<open>
  The calls made to the external primitives, in the order they are made. The log is
  not part of the Go program; it records which primitive calls a run has performed.
\<close>

datatype call =
    CallHSalsa20
  | CallXORKeyStream nat
  | CallSum nat
  | CallVerify nat

record state =
  heap :: "bytes list"
  calls :: "call list"

definition wf_slice :: "state \<Rightarrow> slice \<Rightarrow> bool" where
  "wf_slice st s =
     (len s \<le> cap s \<and>
      (case ptr s of
         None \<Rightarrow> cap s = 0
       | Some a \<Rightarrow> a < length (heap st) \<and> off s + cap s \<le> length (heap st ! a)))"

definition slice_bytes :: "state \<Rightarrow> slice \<Rightarrow> bytes" where
  "slice_bytes st s =
     (case ptr s of
        None \<Rightarrow> []
      | Some a \<Rightarrow> take (len s) (drop (off s) (heap st ! a)))"

text \<open>The slice expression \<open>s[lo:hi]\<close>: Go panics unless \<open>lo \<le> hi \<le> cap(s)\<close>.\<close>

definition reslice :: "slice \<Rightarrow> nat \<Rightarrow> nat \<Rightarrow> slice option" where
  "reslice s lo hi =
     (if lo \<le> hi \<and> hi \<le> cap s
      then Some (s\<lparr>off := off s + lo, len := hi - lo, cap := cap s - lo\<rparr>)
      else None)"

text \<open>\<open>s[lo:]\<close> is \<open>s[lo:len(s)]\<close> and \<open>s[:hi]\<close> is \<open>s[0:hi]\<close>.\<close>

definition slice_from :: "slice \<Rightarrow> nat \<Rightarrow> slice option" where
  "slice_from s lo = reslice s lo (len s)"

definition slice_to :: "slice \<Rightarrow> nat \<Rightarrow> slice option" where
  "slice_to s hi = reslice s 0 hi"

text \<open>The index expressions \<open>s[i]\<close> (read) and \<open>s[i] = v\<close> (write): Go panics unless \<open>i < len(s)\<close>.\<close>

definition load :: "state \<Rightarrow> slice \<Rightarrow> nat \<Rightarrow> byte option" where
  "load st s i =
     (case ptr s of
        None \<Rightarrow> None
      | Some a \<Rightarrow> if i < len s then Some (heap st ! a ! (off s + i)) else None)"

definition store :: "state \<Rightarrow> slice \<Rightarrow> nat \<Rightarrow> byte \<Rightarrow> state option" where
  "store st s i v =
     (case ptr s of
        None \<Rightarrow> None
      | Some a \<Rightarrow>
          if i < len s
          then Some (st\<lparr>heap := (heap st)[a := (heap st ! a)[off s + i := v]]\<rparr>)
          else None)"

text \<open>Reading element \<open>i\<close> of a fixed-size array, checked against the array's length.\<close>

definition index :: "bytes \<Rightarrow> nat \<Rightarrow> byte option" where
  "index xs i = (if i < length xs then Some (xs ! i) else None)"

text \<open>
  Writing the bytes \<open>bs\<close> to the first \<open>length bs\<close> elements of a slice. It is used
  by the built-in \<open>copy\<close> and by the primitives that fill a destination slice, which
  check the length before they write.
\<close>

definition write_at :: "bytes \<Rightarrow> nat \<Rightarrow> bytes \<Rightarrow> bytes" where
  "write_at arr pos bs = take pos arr @ bs @ drop (pos + length bs) arr"

definition write_bytes :: "state \<Rightarrow> slice \<Rightarrow> bytes \<Rightarrow> state" where
  "write_bytes st s bs =
     (case ptr s of
        None \<Rightarrow> st
      | Some a \<Rightarrow> st\<lparr>heap := (heap st)[a := write_at (heap st ! a) (off s) bs]\<rparr>)"

text \<open>\<open>make([]byte, n)\<close>: a fresh backing array of \<open>n\<close> zero bytes.\<close>

definition make_slice :: "state \<Rightarrow> nat \<Rightarrow> state \<times> slice" where
  "make_slice st n =
     (st\<lparr>heap := heap st @ [replicate n 0]\<rparr>,
      \<lparr>ptr = Some (length (heap st)), off = 0, len = n, cap = n\<rparr>)"

text \<open>
  The built-in \<open>copy(dst, src)\<close> copies \<open>min(len(dst), len(src))\<close> elements.
  \<open>copy_slice\<close> is the form with two slices of the store, \<open>copy_to_slice\<close> the form
  whose source is a local array, \<open>copy_from_slice\<close> the form whose destination is a
  local array, \<open>copy_array\<close> the form between two local arrays.
\<close>

definition copy_slice :: "state \<Rightarrow> slice \<Rightarrow> slice \<Rightarrow> state" where
  "copy_slice st dst src = write_bytes st dst (take (len dst) (slice_bytes st src))"

definition copy_to_slice :: "state \<Rightarrow> slice \<Rightarrow> bytes \<Rightarrow> state" where
  "copy_to_slice st dst src = write_bytes st dst (take (len dst) src)"

definition copy_array :: "bytes \<Rightarrow> bytes \<Rightarrow> bytes" where
  "copy_array dst src = take (length dst) src @ drop (length src) dst"

definition copy_from_slice :: "state \<Rightarrow> bytes \<Rightarrow> slice \<Rightarrow> bytes" where
  "copy_from_slice st dst src = copy_array dst (slice_bytes st src)"


section \<open>The external primitives\<close>

text \<open>
  \<open>secretbox.go\<close> imports three things that are not part of the package: the
  Salsa20 functions \<open>salsa.HSalsa20\<close> and \<open>salsa.XORKeyStream\<close> with the constant
  \<open>salsa.Sigma\<close> (package \<open>golang.org/x/crypto/salsa20/salsa\<close>), the one-time
  authenticator \<open>onetimeauth.Sum\<close>, \<open>onetimeauth.Verify\<close> and \<open>onetimeauth.Size\<close>,
  and the types \<open>nacl.Key = *[32]byte\<close> and \<open>nacl.Nonce = *[24]byte\<close>.
  Their cryptographic cores are parameters of the embedding, collected in \<open>prims\<close>;
  nothing is assumed about them.

  Keys and nonces are byte lists; the pointers are taken to be non-nil.
\<close>

record prims =
  sigma :: bytes
  hsalsa20 :: "bytes \<Rightarrow> bytes \<Rightarrow> bytes \<Rightarrow> bytes"
  keystream :: "bytes \<Rightarrow> bytes \<Rightarrow> nat \<Rightarrow> byte"
  poly1305 :: "bytes \<Rightarrow> bytes \<Rightarrow> bytes"

text \<open>A value of Go type \<open>[n]byte\<close> has exactly \<open>n\<close> elements.\<close>

definition array_of :: "nat \<Rightarrow> bytes \<Rightarrow> bytes" where
  "array_of n xs = take n xs @ replicate (n - length xs) 0"

text \<open>
  Modelled from the spec: \<open>onetimeauth.Size\<close>, the tag size of the one-time
  authenticator, which the spec gives as 16 bytes.
\<close>

definition Size :: nat where
  "Size = 16"

text \<open>\<open>const Overhead = onetimeauth.Size\<close>\<close>

definition Overhead :: nat where
  "Overhead = Size"

text \<open>
  Modelled from the spec: \<open>salsa.HSalsa20(out, in, k, c)\<close>, the spec's
  \<open>DeriveSubkey\<close>, which fills the 32-byte array \<open>out\<close> from the 16-byte input,
  the key and the constant.
\<close>

definition HSalsa20 :: "prims \<Rightarrow> state \<Rightarrow> bytes \<Rightarrow> bytes \<Rightarrow> bytes \<Rightarrow> state \<times> bytes" where
  "HSalsa20 P st inp k c =
     (st\<lparr>calls := calls st @ [CallHSalsa20]\<rparr>, array_of 32 (hsalsa20 P inp k c))"

text \<open>
  Modelled from the spec: \<open>salsa.XORKeyStream(out, in, counter, key)\<close>, the spec's
  \<open>StreamXOR\<close>, which generates keystream of \<open>len(in)\<close> bytes and XORs it into
  \<open>out\<close>. \<open>keystream P counter key i\<close> is byte \<open>i\<close> of the keystream that starts at
  \<open>counter\<close>. A destination shorter than the source is a panic. The caller's counter
  array is not changed. The source and the destination overlap entirely or not at all.
\<close>

definition xor_stream :: "prims \<Rightarrow> bytes \<Rightarrow> bytes \<Rightarrow> bytes \<Rightarrow> bytes" where
  "xor_stream P inp counter key =
     map (\<lambda>i. (inp ! i) XOR keystream P counter key i) [0..<length inp]"

definition XORKeyStream ::
  "prims \<Rightarrow> state \<Rightarrow> slice \<Rightarrow> slice \<Rightarrow> bytes \<Rightarrow> bytes \<Rightarrow> state option" where
  "XORKeyStream P st out inp counter key =
     (if len out < len inp then None
      else Some (write_bytes (st\<lparr>calls := calls st @ [CallXORKeyStream (len inp)]\<rparr>) out
                   (xor_stream P (slice_bytes st inp) counter key)))"

text \<open>The same call on a local array, encrypted in place (\<open>out\<close> and \<open>in\<close> are both \<open>a[:]\<close>).\<close>

definition XORKeyStream_array ::
  "prims \<Rightarrow> state \<Rightarrow> bytes \<Rightarrow> bytes \<Rightarrow> bytes \<Rightarrow> state \<times> bytes" where
  "XORKeyStream_array P st a counter key =
     (st\<lparr>calls := calls st @ [CallXORKeyStream (length a)]\<rparr>, xor_stream P a counter key)"

text \<open>
  Modelled from the spec: \<open>onetimeauth.Sum(m, key)\<close> returns the 16-byte tag of \<open>m\<close>
  under \<open>key\<close>, and \<open>onetimeauth.Verify(mac, m, key)\<close> compares \<open>mac\<close> with that tag
  (in constant time, which the embedding does not show).
\<close>

definition Sum :: "prims \<Rightarrow> state \<Rightarrow> slice \<Rightarrow> bytes \<Rightarrow> state \<times> bytes" where
  "Sum P st m key =
     (st\<lparr>calls := calls st @ [CallSum (len m)]\<rparr>,
      array_of Size (poly1305 P (slice_bytes st m) key))"

definition Verify :: "prims \<Rightarrow> state \<Rightarrow> bytes \<Rightarrow> slice \<Rightarrow> bytes \<Rightarrow> state \<times> bool" where
  "Verify P st mac m key =
     (st\<lparr>calls := calls st @ [CallVerify (len m)]\<rparr>,
      mac = array_of Size (poly1305 P (slice_bytes st m) key))"

section \<open>The package secretbox\<close>

text \<open>
  \<open>setup\<close> (here \<open>setup_fn\<close>, as \<open>setup\<close> is a keyword of Isabelle) produces a
  sub-key and Salsa20 counter given a nonce and key. The arrays
  \<open>subKey\<close> and \<open>counter\<close> are the caller's; \<open>setup\<close> overwrites the first and copies
  into the second. The slice expression \<open>nonce[16:]\<close> is in bounds by the type of the
  nonce, a 24-byte array.
\<close>

definition setup_fn ::
  "prims \<Rightarrow> state \<Rightarrow> bytes \<Rightarrow> bytes \<Rightarrow> bytes \<Rightarrow> bytes \<Rightarrow> state \<times> bytes \<times> bytes" where
  "setup_fn P st subKey counter nonce key =
     (let hNonce = replicate 16 0;
          hNonce = copy_array hNonce nonce;
          (st, subKey) = HSalsa20 P st hNonce key (sigma P);
          counter = copy_array counter (drop 16 nonce)
      in (st, subKey, counter))"

text \<open>
  \<open>sliceForAppend\<close> takes a slice and a requested number of bytes. It returns a slice
  with the contents of the given slice followed by that many bytes and a second slice
  that aliases into it and contains only the extra bytes.
\<close>

definition sliceForAppend :: "state \<Rightarrow> slice \<Rightarrow> nat \<Rightarrow> (state \<times> slice \<times> slice) option" where
  "sliceForAppend st inp n = do {
     let total = len inp + n;
     (st, head) \<leftarrow>
       (if cap inp \<ge> total
        then do { head \<leftarrow> slice_to inp total; Some (st, head) }
        else (let (st, head) = make_slice st total in Some (copy_slice st head inp, head)));
     tail \<leftarrow> slice_from head (len inp);
     Some (st, head, tail)
   }"

text \<open>
  The loop \<open>for i, x := range firstMessageBlock { out[i] = firstBlock[32+i] ^ x }\<close>,
  from index \<open>i\<close> with \<open>k\<close> iterations left.
\<close>

fun xor_loop :: "state \<Rightarrow> slice \<Rightarrow> bytes \<Rightarrow> slice \<Rightarrow> nat \<Rightarrow> nat \<Rightarrow> state option" where
  "xor_loop st out firstBlock firstMessageBlock i 0 = Some st"
| "xor_loop st out firstBlock firstMessageBlock i (Suc k) = do {
     x \<leftarrow> load st firstMessageBlock i;
     y \<leftarrow> index firstBlock (32 + i);
     st \<leftarrow> store st out i (y XOR x);
     xor_loop st out firstBlock firstMessageBlock (i + 1) k
   }"

text \<open>
  \<open>Seal\<close> appends an encrypted and authenticated copy of \<open>message\<close> to \<open>out\<close>, which
  must not overlap \<open>message\<close>.
\<close>

definition Seal ::
  "prims \<Rightarrow> state \<Rightarrow> slice \<Rightarrow> slice \<Rightarrow> bytes \<Rightarrow> bytes \<Rightarrow> (state \<times> slice) option" where
  "Seal P st out message nonce key = do {
     let subKey = replicate 32 0;
     let counter = replicate 16 0;
     let (st, subKey, counter) = setup_fn P st subKey counter nonce key;
     let firstBlock = replicate 64 0;
     let (st, firstBlock) = XORKeyStream_array P st firstBlock counter subKey;
     let poly1305Key = replicate 32 0;
     let poly1305Key = copy_array poly1305Key firstBlock;
     (st, ret, out) \<leftarrow> sliceForAppend st out (len message + Size);
     firstMessageBlock \<leftarrow> (if len message > 32 then slice_to message 32 else Some message);
     let tagOut = out;
     out \<leftarrow> slice_from out Size;
     st \<leftarrow> xor_loop st out firstBlock firstMessageBlock 0 (len firstMessageBlock);
     message \<leftarrow> slice_from message (len firstMessageBlock);
     let ciphertext = out;
     out \<leftarrow> slice_from out (len firstMessageBlock);
     let counter = counter[8 := 1];
     st \<leftarrow> XORKeyStream P st out message counter subKey;
     let (st, tag) = Sum P st ciphertext poly1305Key;
     let st = copy_to_slice st tagOut tag;
     Some (st, ret)
   }"

text \<open>
  \<open>Open\<close> authenticates and decrypts a box produced by \<open>Seal\<close> and appends the message
  to \<open>out\<close>, which must not overlap \<open>box\<close>. The result is Go's pair
  \<open>([]byte, bool)\<close> together with the state.
\<close>

definition Open ::
  "prims \<Rightarrow> state \<Rightarrow> slice \<Rightarrow> slice \<Rightarrow> bytes \<Rightarrow> bytes \<Rightarrow> (state \<times> slice \<times> bool) option" where
  "Open P st out box nonce key =
     (if len box < Overhead then Some (st, nil, False)
      else do {
        let subKey = replicate 32 0;
        let counter = replicate 16 0;
        let (st, subKey, counter) = setup_fn P st subKey counter nonce key;
        let firstBlock = replicate 64 0;
        let (st, firstBlock) = XORKeyStream_array P st firstBlock counter subKey;
        let poly1305Key = replicate 32 0;
        let poly1305Key = copy_array poly1305Key firstBlock;
        let tag = replicate Size 0;
        let tag = copy_from_slice st tag box;
        body \<leftarrow> slice_from box Size;
        let (st, ok) = Verify P st tag body poly1305Key;
        if \<not> ok then Some (st, nil, False)
        else do {
          (st, ret, out) \<leftarrow> sliceForAppend st out (len box - Overhead);
          box \<leftarrow> slice_from box Overhead;
          firstMessageBlock \<leftarrow> (if len box > 32 then slice_to box 32 else Some box);
          st \<leftarrow> xor_loop st out firstBlock firstMessageBlock 0 (len firstMessageBlock);
          box \<leftarrow> slice_from box (len firstMessageBlock);
          out \<leftarrow> slice_from out (len firstMessageBlock);
          let counter = counter[8 := 1];
          st \<leftarrow> XORKeyStream P st out box counter subKey;
          Some (st, ret, True)
        }
      })"


section \<open>The construction as the spec describes it\<close>

text \<open>
  The spec's steps 1 to 6 of \<open>Seal\<close>, written on byte sequences: the sub-key and the
  counter derived from the key and the nonce, the first 64-byte keystream block (64 zero
  bytes encrypted under sub-key and counter), the authenticator key (its first 32
  bytes), the ciphertext body (the first 32 message bytes XORed with the last 32 bytes
  of the block, the remainder encrypted with the block index set to 1), the tag over
  the body, and the output \<open>tag \<parallel> body\<close>. \<open>spec_counter\<close> lays the counter out as
  the code does. The theorems below compare \<open>Seal\<close> and \<open>Open\<close> with these functions.
\<close>

definition spec_sub_key :: "prims \<Rightarrow> bytes \<Rightarrow> bytes \<Rightarrow> bytes" where
  "spec_sub_key P nonce key = array_of 32 (hsalsa20 P (array_of 16 nonce) key (sigma P))"

definition spec_counter :: "bytes \<Rightarrow> bytes" where
  "spec_counter nonce = array_of 16 (drop 16 nonce)"

definition spec_first_block :: "prims \<Rightarrow> bytes \<Rightarrow> bytes \<Rightarrow> bytes" where
  "spec_first_block P nonce key =
     xor_stream P (replicate 64 0) (spec_counter nonce) (spec_sub_key P nonce key)"

definition spec_auth_key :: "prims \<Rightarrow> bytes \<Rightarrow> bytes \<Rightarrow> bytes" where
  "spec_auth_key P nonce key = take 32 (spec_first_block P nonce key)"

definition spec_body :: "prims \<Rightarrow> bytes \<Rightarrow> bytes \<Rightarrow> bytes \<Rightarrow> bytes" where
  "spec_body P m nonce key =
     map2 (XOR) (drop 32 (spec_first_block P nonce key)) (take 32 m) @
     xor_stream P (drop 32 m) ((spec_counter nonce)[8 := 1]) (spec_sub_key P nonce key)"

definition spec_tag :: "prims \<Rightarrow> bytes \<Rightarrow> bytes \<Rightarrow> bytes \<Rightarrow> bytes" where
  "spec_tag P body nonce key = array_of Size (poly1305 P body (spec_auth_key P nonce key))"

definition spec_seal :: "prims \<Rightarrow> bytes \<Rightarrow> bytes \<Rightarrow> bytes \<Rightarrow> bytes" where
  "spec_seal P m nonce key =
     spec_tag P (spec_body P m nonce key) nonce key @ spec_body P m nonce key"

section \<open>Notions used in the statements\<close>

text \<open>
  Two slices are apart when their bytes do not overlap: one of them is empty, or they
  lie in different backing arrays, or one ends before the other begins.
\<close>

definition apart :: "slice \<Rightarrow> slice \<Rightarrow> bool" where
  "apart s t =
     (len s = 0 \<or> len t = 0 \<or> ptr s \<noteq> ptr t \<or>
      off s + len s \<le> off t \<or> off t + len t \<le> off s)"

text \<open>
  The input \<open>src\<close> does not alias the output buffer \<open>out\<close> when the bytes of \<open>src\<close>
  do not overlap the spare capacity of \<open>out\<close>, the bytes between \<open>len(out)\<close> and
  \<open>cap(out)\<close>, which are the only bytes of an existing array that appending to \<open>out\<close>
  can write.
\<close>

definition no_alias :: "slice \<Rightarrow> slice \<Rightarrow> bool" where
  "no_alias out src =
     apart (out\<lparr>off := off out + len out, len := cap out - len out\<rparr>) src"

text \<open>
  What \<open>sliceForAppend\<close> returns on a well-formed slice: the state, the head and the
  tail.
\<close>

definition grown :: "state \<Rightarrow> slice \<Rightarrow> nat \<Rightarrow> state" where
  "grown st inp n =
     (if len inp + n \<le> cap inp then st
      else st\<lparr>heap := heap st @ [slice_bytes st inp @ replicate n 0]\<rparr>)"

definition head_slice :: "state \<Rightarrow> slice \<Rightarrow> nat \<Rightarrow> slice" where
  "head_slice st inp n =
     (if len inp + n \<le> cap inp then inp\<lparr>len := len inp + n\<rparr>
      else \<lparr>ptr = Some (length (heap st)), off = 0, len = len inp + n, cap = len inp + n\<rparr>)"

definition tail_slice :: "state \<Rightarrow> slice \<Rightarrow> nat \<Rightarrow> slice" where
  "tail_slice st inp n =
     (if len inp + n \<le> cap inp
      then inp\<lparr>off := off inp + len inp, len := n, cap := cap inp - len inp\<rparr>
      else \<lparr>ptr = Some (length (heap st)), off = len inp, len = n, cap = n\<rparr>)"

text \<open>
  Appending the bytes \<open>new\<close> to the slice \<open>out\<close>: in place when the capacity of \<open>out\<close>
  suffices, in a fresh backing array otherwise.
\<close>

definition appended :: "state \<Rightarrow> slice \<Rightarrow> bytes \<Rightarrow> state \<times> slice" where
  "appended st out new =
     (if len out + length new \<le> cap out
      then (write_bytes st
              (out\<lparr>off := off out + len out, len := length new, cap := cap out - len out\<rparr>) new,
            out\<lparr>len := len out + length new\<rparr>)
      else (st\<lparr>heap := heap st @ [slice_bytes st out @ new]\<rparr>,
            \<lparr>ptr = Some (length (heap st)), off = 0,
             len = len out + length new, cap = len out + length new\<rparr>))"

text \<open>The primitive calls of a run of \<open>Seal\<close>, of an accepting and of a rejecting run of \<open>Open\<close>.\<close>

definition seal_calls :: "nat \<Rightarrow> call list" where
  "seal_calls n = [CallHSalsa20, CallXORKeyStream 64, CallXORKeyStream (n - 32), CallSum n]"

definition open_calls :: "nat \<Rightarrow> call list" where
  "open_calls n = [CallHSalsa20, CallXORKeyStream 64, CallVerify n, CallXORKeyStream (n - 32)]"

definition reject_calls :: "nat \<Rightarrow> call list" where
  "reject_calls n = [CallHSalsa20, CallXORKeyStream 64, CallVerify n]"

section \<open>Concrete inputs\<close>

text \<open>
  An instance of the primitives and a small store, on which the theorems below are
  applied to concrete inputs. The instance is not Salsa20 or Poly1305; the theorems
  hold for every instance.
\<close>

definition test_prims :: prims where
  "test_prims =
     \<lparr>sigma = [101, 120, 112, 97],
      hsalsa20 = (\<lambda>inp k c. map (\<lambda>i. (k ! i) XOR (inp ! (i mod 16)) + (c ! (i mod 4))) [0..<32]),
      keystream = (\<lambda>counter key i. (key ! (i mod 32)) + (counter ! (i mod 16)) + of_nat i),
      poly1305 = (\<lambda>m k. map (\<lambda>j. foldr (+) m (k ! j)) [0..<16])\<rparr>"

definition test_key :: bytes where
  "test_key = map of_nat [0..<32]"

definition test_nonce :: bytes where
  "test_nonce = map of_nat [100..<124]"

text \<open>
  The store holds a five-byte message, a three-byte box, the box that sealing the
  message under \<open>test_nonce\<close> and \<open>test_key\<close> gives, the same box with its first
  byte changed, and a buffer of 40 bytes.
\<close>

definition test_state :: state where
  "test_state =
     \<lparr>heap =
        [[1, 2, 3, 4, 5],
         [9, 9, 9],
         [57, 78, 72, 65, 65, 94, 88, 73, 221, 241, 218, 226, 225, 237, 246, 230,
          92, 112, 111, 97, 96],
         [0, 78, 72, 65, 65, 94, 88, 73, 221, 241, 218, 226, 225, 237, 246, 230,
          92, 112, 111, 97, 96],
         replicate 40 7],
      calls = []\<rparr>"

definition test_message :: slice where
  "test_message = \<lparr>ptr = Some 0, off = 0, len = 5, cap = 5\<rparr>"

definition test_short :: slice where
  "test_short = \<lparr>ptr = Some 1, off = 0, len = 3, cap = 3\<rparr>"

definition test_box :: slice where
  "test_box = \<lparr>ptr = Some 2, off = 0, len = 21, cap = 21\<rparr>"

definition test_bad_box :: slice where
  "test_bad_box = \<lparr>ptr = Some 3, off = 0, len = 21, cap = 21\<rparr>"

text \<open>A slice of two bytes with room for 38 more.\<close>

definition test_out :: slice where
  "test_out = \<lparr>ptr = Some 4, off = 0, len = 2, cap = 40\<rparr>"

text \<open>An empty slice of the same buffer, with room for 40 bytes.\<close>

definition test_empty :: slice where
  "test_empty = \<lparr>ptr = Some 4, off = 0, len = 0, cap = 40\<rparr>"

text \<open>
  Two slices of that one buffer which do not overlap: two bytes at the front with room
  for 28 more, and five bytes at the back.
\<close>

definition test_front :: slice where
  "test_front = \<lparr>ptr = Some 4, off = 0, len = 2, cap = 30\<rparr>"

definition test_back :: slice where
  "test_back = \<lparr>ptr = Some 4, off = 32, len = 5, cap = 8\<rparr>"

section \<open>Writing into a backing array\<close>

lemma length_write_at:
  "pos + length bs \<le> length arr \<Longrightarrow> length (write_at arr pos bs) = length arr"
  by (simp add: write_at_def)

lemma write_at_Nil: "write_at arr pos [] = arr"
  by (simp add: write_at_def)

lemma write_at_update:
  "p < length arr \<Longrightarrow> write_at (arr[p := v]) (Suc p) bs = write_at arr p (v # bs)"
  by (simp add: write_at_def take_Suc_conv_app_nth)

lemma write_at_adjacent:
  "p + length b1 \<le> length arr \<Longrightarrow>
   write_at (write_at arr p b1) (p + length b1) b2 = write_at arr p (b1 @ b2)"
  by (simp add: write_at_def ac_simps)

lemma write_at_before:
  "p + length b1 \<le> length arr \<Longrightarrow>
   write_at (write_at arr (p + length b1) b2) p b1 = write_at arr p (b1 @ b2)"
  by (simp add: write_at_def add.assoc min_absorb2)

lemma read_write_at:
  "p \<le> length arr \<Longrightarrow> take (length bs) (drop p (write_at arr p bs)) = bs"
  by (simp add: write_at_def)

lemma read_append_write_at:
  "q + m \<le> length arr \<Longrightarrow>
   take (m + length bs) (drop q (write_at arr (q + m) bs)) = take m (drop q arr) @ bs"
  by (simp add: write_at_def drop_take)

subsection \<open>Writing through a slice\<close>

lemma length_heap_write_bytes: "length (heap (write_bytes st s bs)) = length (heap st)"
  by (cases "ptr s") (simp_all add: write_bytes_def)

lemma calls_write_bytes: "calls (write_bytes st s bs) = calls st"
  by (cases "ptr s") (simp_all add: write_bytes_def)

lemma write_bytes_Nil: "write_bytes st s [] = st"
  by (cases "ptr s") (simp_all add: write_bytes_def write_at_Nil)

lemma nth_write_at:
  assumes "p + length bs \<le> length arr" "i < length arr"
  shows "write_at arr p bs ! i = (if p \<le> i \<and> i < p + length bs then bs ! (i - p) else arr ! i)"
  using assms by (auto simp: write_at_def nth_append)

lemma read_write_at_apart:
  assumes "p + length bs \<le> length arr" "q + n \<le> length arr" "q + n \<le> p \<or> p + length bs \<le> q"
  shows "take n (drop q (write_at arr p bs)) = take n (drop q arr)"
proof (rule nth_equalityI)
  show "length (take n (drop q (write_at arr p bs))) = length (take n (drop q arr))"
    using assms by (simp add: length_write_at)
next
  fix i assume "i < length (take n (drop q (write_at arr p bs)))"
  then have i: "i < n" using assms by (simp add: length_write_at)
  then have "write_at arr p bs ! (q + i) = arr ! (q + i)"
    using assms by (auto simp: nth_write_at)
  then show "take n (drop q (write_at arr p bs)) ! i = take n (drop q arr) ! i"
    using i assms by (simp add: length_write_at)
qed

lemma slice_bytes_write_apart:
  assumes "wf_slice st s" "wf_slice st t" "length bs \<le> len s" "apart s t"
  shows "slice_bytes (write_bytes st s bs) t = slice_bytes st t"
proof (cases "ptr s")
  case None
  then show ?thesis by (simp add: write_bytes_def)
next
  case s: (Some a)
  show ?thesis
  proof (cases "ptr t")
    case None
    then show ?thesis by (simp add: slice_bytes_def)
  next
    case t: (Some b)
    show ?thesis
    proof (cases "a = b")
      case False
      then show ?thesis using s t by (simp add: slice_bytes_def write_bytes_def)
    next
      case True
      have bounds: "a < length (heap st)" "off s + len s \<le> length (heap st ! a)"
        "off t + len t \<le> length (heap st ! a)"
        using assms(1,2) s t True by (auto simp: wf_slice_def)
      show ?thesis
      proof (cases "bs = [] \<or> len t = 0")
        case True
        then show ?thesis by (auto simp: write_bytes_Nil slice_bytes_def t)
      next
        case False
        with assms(3,4) s t \<open>a = b\<close>
        have "off t + len t \<le> off s \<or> off s + length bs \<le> off t"
          by (auto simp: apart_def)
        then have "take (len t) (drop (off t) (write_at (heap st ! a) (off s) bs))
                 = take (len t) (drop (off t) (heap st ! a))"
          using bounds assms(3) by (intro read_write_at_apart) auto
        then show ?thesis using s t \<open>a = b\<close> bounds(1)
          by (simp add: slice_bytes_def write_bytes_def)
      qed
    qed
  qed
qed

lemma length_slice_bytes:
  "wf_slice st s \<Longrightarrow> length (slice_bytes st s) = len s"
  by (cases "ptr s") (auto simp: wf_slice_def slice_bytes_def)

subsection \<open>The loop over the first message block\<close>

text \<open>
  When the bytes read and the bytes written do not overlap, the loop writes the XOR of
  the last 32 bytes of the first block with the source bytes, all at once.
\<close>

lemma xor_loop_heap:
  assumes "ptr out = Some a" "ptr src = Some b" "a < length (heap st)"
    "a \<noteq> b \<or> off src + (i + k) \<le> off out + i \<or> off out + (i + k) \<le> off src + i"
    "i + k \<le> len out" "off out + len out \<le> length (heap st ! a)"
    "i + k \<le> len src" "32 + i + k \<le> length fb"
  shows "xor_loop st out fb src i k =
     Some (st\<lparr>heap := (heap st)[a := write_at (heap st ! a) (off out + i)
        (map (\<lambda>j. (fb ! (32 + j)) XOR (heap st ! b ! (off src + j))) [i..<i + k])]\<rparr>)"
  using assms
proof (induction k arbitrary: st i)
  case 0
  then show ?case by (simp add: write_at_Nil)
next
  case (Suc k)
  let ?v = "(fb ! (32 + i)) XOR (heap st ! b ! (off src + i))"
  let ?st = "st\<lparr>heap := (heap st)[a := (heap st ! a)[off out + i := ?v]]\<rparr>"
  have ld: "load st src i = Some (heap st ! b ! (off src + i))"
    using Suc.prems by (simp add: load_def)
  have ix: "index fb (32 + i) = Some (fb ! (32 + i))"
    using Suc.prems by (simp add: index_def)
  have sto: "store st out i ?v = Some ?st"
    using Suc.prems by (simp add: store_def)
  have rd: "heap ?st ! b ! (off src + j) = heap st ! b ! (off src + j)"
    if "Suc i \<le> j" "j < Suc i + k" for j
    using Suc.prems(3,4) that by (cases "a = b") auto
  have IH: "xor_loop ?st out fb src (Suc i) k =
     Some (?st\<lparr>heap := (heap ?st)[a := write_at (heap ?st ! a) (off out + Suc i)
        (map (\<lambda>j. (fb ! (32 + j)) XOR (heap ?st ! b ! (off src + j))) [Suc i..<Suc i + k])]\<rparr>)"
    by (rule Suc.IH) (use Suc.prems in auto)
  have mp: "map (\<lambda>j. (fb ! (32 + j)) XOR (heap ?st ! b ! (off src + j))) [Suc i..<Suc i + k]
          = map (\<lambda>j. (fb ! (32 + j)) XOR (heap st ! b ! (off src + j))) [Suc i..<Suc i + k]"
    by (rule map_cong [OF refl]) (use rd in \<open>simp del: upt_Suc\<close>)
  have wa: "write_at ((heap st ! a)[off out + i := ?v]) (Suc (off out + i))
             (map (\<lambda>j. (fb ! (32 + j)) XOR (heap st ! b ! (off src + j))) [Suc i..<Suc (i + k)])
          = write_at (heap st ! a) (off out + i)
             (map (\<lambda>j. (fb ! (32 + j)) XOR (heap st ! b ! (off src + j))) [i..<Suc (i + k)])"
    using Suc.prems by (simp add: write_at_update upt_rec [of i])
  have "xor_loop st out fb src i (Suc k) = xor_loop ?st out fb src (Suc i) k"
    by (simp add: ld ix sto)
  also note IH [unfolded mp]
  finally show ?case
    using Suc.prems(3) by (simp add: wa del: upt_Suc)
qed

lemma xor_loop_write:
  assumes "wf_slice st src" "wf_slice st out" "k \<le> len out" "k \<le> len src"
    "32 + k \<le> length fb" "apart (out\<lparr>len := k\<rparr>) (src\<lparr>len := k\<rparr>)"
  shows "xor_loop st out fb src 0 k =
     Some (write_bytes st out (map (\<lambda>j. (fb ! (32 + j)) XOR (slice_bytes st src ! j)) [0..<k]))"
proof (cases "k = 0")
  case True
  then show ?thesis by (simp add: write_bytes_Nil)
next
  case False
  with assms obtain a b where a: "ptr out = Some a" and b: "ptr src = Some b"
    by (cases "ptr out"; cases "ptr src") (auto simp: wf_slice_def)
  with assms(6) False
  have ne: "a \<noteq> b \<or> off src + (0 + k) \<le> off out + 0 \<or> off out + (0 + k) \<le> off src + 0"
    by (auto simp: apart_def)
  have bounds: "a < length (heap st)" "off out + len out \<le> length (heap st ! a)"
    "off src + len src \<le> length (heap st ! b)"
    using assms a b by (auto simp: wf_slice_def)
  have meq: "map (\<lambda>j. (fb ! (32 + j)) XOR (heap st ! b ! (off src + j))) [0..<k]
      = map (\<lambda>j. (fb ! (32 + j)) XOR (slice_bytes st src ! j)) [0..<k]"
    using assms(4) bounds(3) b by (auto simp: slice_bytes_def)
  have "xor_loop st out fb src 0 k =
     Some (st\<lparr>heap := (heap st)[a := write_at (heap st ! a) (off out + 0)
        (map (\<lambda>j. (fb ! (32 + j)) XOR (heap st ! b ! (off src + j))) [0..<0 + k])]\<rparr>)"
    by (rule xor_loop_heap [OF a b bounds(1) ne]) (use assms bounds in simp_all)
  then show ?thesis using a by (simp add: write_bytes_def meq)
qed

lemma xor_loop_total:
  assumes "0 < k \<longrightarrow> ptr out \<noteq> None \<and> ptr src \<noteq> None"
    "i + k \<le> len out" "i + k \<le> len src" "32 + i + k \<le> length fb"
  shows "\<exists>st'. xor_loop st out fb src i k = Some st'"
  using assms
proof (induction k arbitrary: st i)
  case 0
  then show ?case by simp
next
  case (Suc k)
  then obtain a b where a: "ptr out = Some a" and b: "ptr src = Some b" by auto
  obtain x where ld: "load st src i = Some x" using Suc.prems b by (simp add: load_def)
  obtain y where ix: "index fb (32 + i) = Some y" using Suc.prems by (simp add: index_def)
  obtain st1 where sto: "store st out i (y XOR x) = Some st1"
    using Suc.prems a by (simp add: store_def)
  have "\<exists>st'. xor_loop st1 out fb src (Suc i) k = Some st'"
    by (rule Suc.IH) (use Suc.prems a b in simp_all)
  then show ?case by (simp add: ld ix sto)
qed

subsection \<open>sliceForAppend\<close>

lemma sliceForAppend_eq:
  assumes "wf_slice st inp"
  shows "sliceForAppend st inp n = Some (grown st inp n, head_slice st inp n, tail_slice st inp n)"
proof (cases "len inp + n \<le> cap inp")
  case True
  then show ?thesis
    by (simp add: sliceForAppend_def grown_def head_slice_def tail_slice_def
        slice_to_def slice_from_def reslice_def)
next
  case False
  have sb: "slice_bytes (st\<lparr>heap := heap st @ [replicate (len inp + n) 0]\<rparr>) inp = slice_bytes st inp"
    using assms by (cases "ptr inp") (auto simp: slice_bytes_def wf_slice_def nth_append)
  have ln: "length (slice_bytes st inp) = len inp"
    using assms by (rule length_slice_bytes)
  have "write_at (replicate (len inp + n) 0) 0 (slice_bytes st inp)
      = slice_bytes st inp @ replicate n 0"
    by (simp add: write_at_def ln)
  with False show ?thesis
    by (simp add: sliceForAppend_def grown_def head_slice_def tail_slice_def
        slice_to_def slice_from_def reslice_def make_slice_def copy_slice_def
        write_bytes_def sb ln Let_def)
qed

lemma append_fill:
  assumes "wf_slice st out" "length new = n"
  shows "(write_bytes (grown st out n) (tail_slice st out n) new, head_slice st out n)
       = appended st out new"
proof (cases "len out + n \<le> cap out")
  case True
  then show ?thesis using assms(2)
    by (simp add: grown_def tail_slice_def head_slice_def appended_def)
next
  case False
  have "length (slice_bytes st out) = len out" using assms(1) by (rule length_slice_bytes)
  then have "write_at (slice_bytes st out @ replicate n 0) (len out) new = slice_bytes st out @ new"
    using assms(2) by (simp add: write_at_def)
  with False show ?thesis using assms(2)
    by (simp add: grown_def tail_slice_def head_slice_def appended_def write_bytes_def)
qed

lemma wf_slice_calls [simp]: "wf_slice (st\<lparr>calls := c\<rparr>) s = wf_slice st s"
  by (cases "ptr s") (simp_all add: wf_slice_def)

lemma slice_bytes_calls [simp]: "slice_bytes (st\<lparr>calls := c\<rparr>) s = slice_bytes st s"
  by (cases "ptr s") (simp_all add: slice_bytes_def)

lemma write_bytes_calls: "write_bytes (st\<lparr>calls := c\<rparr>) s bs = (write_bytes st s bs)\<lparr>calls := c\<rparr>"
  by (cases "ptr s") (simp_all add: write_bytes_def)

lemma head_slice_calls [simp]: "head_slice (st\<lparr>calls := c\<rparr>) inp n = head_slice st inp n"
  by (simp add: head_slice_def)

lemma tail_slice_calls [simp]: "tail_slice (st\<lparr>calls := c\<rparr>) inp n = tail_slice st inp n"
  by (simp add: tail_slice_def)

lemma calls_grown: "calls (grown st inp n) = calls st"
  by (simp add: grown_def)

lemma wf_slice_grown: "wf_slice st s \<Longrightarrow> wf_slice (grown st inp n) s"
  by (cases "ptr s") (auto simp: grown_def wf_slice_def nth_append)

lemma slice_bytes_grown: "wf_slice st s \<Longrightarrow> slice_bytes (grown st inp n) s = slice_bytes st s"
  by (cases "ptr s") (auto simp: grown_def wf_slice_def slice_bytes_def nth_append)

lemma wf_tail_slice:
  "wf_slice st inp \<Longrightarrow> wf_slice (grown st inp n) (tail_slice st inp n)"
  by (cases "ptr inp")
     (auto simp: grown_def tail_slice_def wf_slice_def slice_bytes_def nth_append)

lemma len_tail_slice: "len (tail_slice st inp n) = n"
  by (simp add: tail_slice_def)

lemma apart_tail_slice:
  assumes "wf_slice st s" "no_alias inp s"
  shows "apart (tail_slice st inp n) s"
proof (cases "len inp + n \<le> cap inp")
  case True
  with assms(2) show ?thesis
    by (auto simp: tail_slice_def no_alias_def apart_def)
next
  case False
  with assms(1) show ?thesis
    by (cases "ptr s") (auto simp: tail_slice_def apart_def wf_slice_def)
qed

subsection \<open>Writes that meet\<close>

lemma write_bytes_adjacent:
  assumes "wf_slice st s" "length b1 + length b2 \<le> len s"
  shows "write_bytes (write_bytes st s b1)
           (s\<lparr>off := off s + length b1, len := l, cap := c\<rparr>) b2
       = write_bytes st s (b1 @ b2)"
proof (cases "ptr s")
  case None
  then show ?thesis by (simp add: write_bytes_def)
next
  case (Some a)
  with assms have "a < length (heap st)" "off s + length b1 \<le> length (heap st ! a)"
    by (auto simp: wf_slice_def)
  then show ?thesis using Some
    by (simp add: write_bytes_def write_at_adjacent)
qed

lemma write_bytes_before:
  assumes "wf_slice st s" "length b1 + length b2 \<le> len s"
  shows "write_bytes (write_bytes st
           (s\<lparr>off := off s + length b1, len := l, cap := c\<rparr>) b2) s b1
       = write_bytes st s (b1 @ b2)"
proof (cases "ptr s")
  case None
  then show ?thesis by (simp add: write_bytes_def)
next
  case (Some a)
  with assms have "a < length (heap st)" "off s + length b1 \<le> length (heap st ! a)"
    by (auto simp: wf_slice_def)
  then show ?thesis using Some
    by (simp add: write_bytes_def write_at_before)
qed

lemma slice_bytes_write_same:
  assumes "wf_slice st s" "length bs = len s"
  shows "slice_bytes (write_bytes st s bs) s = bs"
proof (cases "ptr s")
  case None
  with assms show ?thesis by (auto simp: write_bytes_def slice_bytes_def wf_slice_def)
next
  case (Some a)
  with assms have "a < length (heap st)" "off s \<le> length (heap st ! a)"
    by (auto simp: wf_slice_def)
  then show ?thesis using Some assms(2) read_write_at [of "off s" "heap st ! a" bs]
    by (simp add: write_bytes_def slice_bytes_def)
qed

subsection \<open>The primitives and the functions of the spec\<close>

lemma length_xor_stream [simp]: "length (xor_stream P inp counter key) = length inp"
  by (simp add: xor_stream_def)

lemma xor_stream_involution: "xor_stream P (xor_stream P inp counter key) counter key = inp"
  by (rule nth_equalityI) (simp_all add: xor_stream_def xor.assoc)

lemma length_array_of [simp]: "length (array_of n xs) = n"
  by (simp add: array_of_def)

lemma copy_array_zero: "copy_array (replicate n 0) xs = array_of n xs"
  by (simp add: copy_array_def array_of_def)

lemma length_spec_first_block [simp]: "length (spec_first_block P nonce key) = 64"
  by (simp add: spec_first_block_def)

lemma setup_fn_eq:
  "setup_fn P st (replicate 32 0) (replicate 16 0) nonce key =
     (st\<lparr>calls := calls st @ [CallHSalsa20]\<rparr>, spec_sub_key P nonce key, spec_counter nonce)"
  by (simp add: setup_fn_def HSalsa20_def copy_array_zero spec_sub_key_def spec_counter_def)

lemma first_block_eq:
  "XORKeyStream_array P st (replicate 64 0) (spec_counter nonce) (spec_sub_key P nonce key) =
     (st\<lparr>calls := calls st @ [CallXORKeyStream 64]\<rparr>, spec_first_block P nonce key)"
  by (simp add: XORKeyStream_array_def spec_first_block_def)

lemma auth_key_eq:
  "copy_array (replicate 32 0) (spec_first_block P nonce key) = spec_auth_key P nonce key"
  by (simp add: copy_array_zero array_of_def spec_auth_key_def)

lemma first_segment_eq:
  assumes "length fb = 64" "k = min 32 (length m)"
  shows "map (\<lambda>j. (fb ! (32 + j)) XOR (m ! j)) [0..<k] = map2 (XOR) (drop 32 fb) (take 32 m)"
proof (rule nth_equalityI)
  show "length (map (\<lambda>j. (fb ! (32 + j)) XOR (m ! j)) [0..<k])
      = length (map2 (XOR) (drop 32 fb) (take 32 m))"
    using assms by simp
next
  fix i assume "i < length (map (\<lambda>j. (fb ! (32 + j)) XOR (m ! j)) [0..<k])"
  then have i: "i < 32" "i < length m" using assms by simp_all
  then have "i < length (zip (drop 32 fb) (take 32 m))" using assms by simp
  then show "map (\<lambda>j. (fb ! (32 + j)) XOR (m ! j)) [0..<k] ! i
           = map2 (XOR) (drop 32 fb) (take 32 m) ! i"
    using i assms by (simp add: nth_zip)
qed

lemma length_spec_body [simp]: "length (spec_body P m nonce key) = length m"
  by (simp add: spec_body_def min_def)

lemma length_spec_seal: "length (spec_seal P m nonce key) = length m + Size"
  by (simp add: spec_seal_def spec_tag_def)

subsection \<open>Sub-slices\<close>

lemma appended_calls:
  "appended (st\<lparr>calls := c\<rparr>) out new =
     (case appended st out new of (s, r) \<Rightarrow> (s\<lparr>calls := c\<rparr>, r))"
  by (simp add: appended_def write_bytes_calls)

lemma slice_bytes_drop:
  assumes "wf_slice st s" "k \<le> len s"
  shows "slice_bytes st (s\<lparr>off := off s + k, len := len s - k, cap := cap s - k\<rparr>)
       = drop k (slice_bytes st s)"
  by (cases "ptr s") (simp_all add: slice_bytes_def drop_take add.commute)

lemma slice_bytes_take:
  "k \<le> len s \<Longrightarrow> slice_bytes st (s\<lparr>len := k\<rparr>) = take k (slice_bytes st s)"
  by (cases "ptr s") (simp_all add: slice_bytes_def min_absorb1)

lemma wf_slice_shift:
  assumes "wf_slice st s" "k \<le> len s"
  shows "wf_slice st (s\<lparr>off := off s + k, len := len s - k, cap := cap s - k\<rparr>)"
  using assms by (cases "ptr s") (auto simp: wf_slice_def)

lemma wf_slice_shorten:
  "wf_slice st s \<Longrightarrow> k \<le> len s \<Longrightarrow> wf_slice st (s\<lparr>len := k\<rparr>)"
  by (cases "ptr s") (auto simp: wf_slice_def)

subsection \<open>Seal, statement by statement\<close>

text \<open>
  Each step below is one statement of \<open>Seal\<close>; together they rewrite the body of
  \<open>Seal\<close> into the append of \<open>spec_seal\<close> to \<open>out\<close>.
\<close>

lemma Seal_eq:
  assumes wo: "wf_slice st out" and wm: "wf_slice st message" and na: "no_alias out message"
  shows "Seal P st out message nonce key =
     Some (case appended st out (spec_seal P (slice_bytes st message) nonce key) of
             (st', ret) \<Rightarrow> (st'\<lparr>calls := calls st @ seal_calls (len message)\<rparr>, ret))"
proof -
  define M where "M = slice_bytes st message"
  define subKey where "subKey = spec_sub_key P nonce key"
  define counter where "counter = spec_counter nonce"
  define fb where "fb = spec_first_block P nonce key"
  define pk where "pk = spec_auth_key P nonce key"
  define n where "n = len message + Size"
  define k where "k = min 32 (len message)"
  define s0 where "s0 = st\<lparr>calls := calls st @ [CallHSalsa20]\<rparr>"
  define sa where "sa = st\<lparr>calls := calls st @ [CallHSalsa20, CallXORKeyStream 64]\<rparr>"
  have lenM: "length M = len message"
    unfolding M_def using wm by (rule length_slice_bytes)
  have lenfb: "length fb = 64" by (simp add: fb_def)
  have step1: "setup_fn P st (replicate 32 0) (replicate 16 0) nonce key = (s0, subKey, counter)"
    by (simp add: setup_fn_eq s0_def subKey_def counter_def)
  have step2: "XORKeyStream_array P s0 (replicate 64 0) counter subKey = (sa, fb)"
    by (simp add: first_block_eq s0_def sa_def subKey_def counter_def fb_def)
  have step3: "copy_array (replicate 32 0) fb = pk"
    by (simp add: auth_key_eq fb_def pk_def)
  define s1 where "s1 = grown sa out n"
  define hd where "hd = head_slice sa out n"
  define tl where "tl = tail_slice sa out n"
  have wo': "wf_slice sa out" and wm': "wf_slice sa message"
    using wo wm by (simp_all add: sa_def)
  have step4: "sliceForAppend sa out (len message + Size) = Some (s1, hd, tl)"
    using sliceForAppend_eq [OF wo', of n] by (simp add: s1_def hd_def tl_def n_def)
  have wtl: "wf_slice s1 tl" unfolding s1_def tl_def using wo' by (rule wf_tail_slice)
  have ltl: "len tl = n" by (simp add: tl_def len_tail_slice)
  have ntl: "apart tl message"
    unfolding tl_def using wm' na by (rule apart_tail_slice)
  have wm1: "wf_slice s1 message" unfolding s1_def using wm' by (rule wf_slice_grown)
  have bm1: "slice_bytes s1 message = M"
    using slice_bytes_grown [OF wm', of out n] by (simp add: s1_def M_def sa_def)
  define fmb where "fmb = (if 32 < len message then message\<lparr>len := 32\<rparr> else message)"
  have step5: "(if 32 < len message then slice_to message 32 else Some message) = Some fmb"
    using wm by (simp add: fmb_def slice_to_def reslice_def wf_slice_def)
  have lfmb: "len fmb = k" by (simp add: fmb_def k_def)
  have pfmb: "ptr fmb = ptr message" by (simp add: fmb_def)
  have wfmb: "wf_slice s1 fmb"
    using wm1 by (simp add: fmb_def wf_slice_shorten)
  have bfmb: "slice_bytes s1 fmb = take k M"
    using bm1 lenM by (simp add: fmb_def k_def slice_bytes_take)
  define out2 where "out2 = tl\<lparr>off := off tl + Size, len := len tl - Size, cap := cap tl - Size\<rparr>"
  have Sn: "Size \<le> len tl" by (simp add: ltl n_def)
  have step6: "slice_from tl Size = Some out2"
    using wtl Sn by (simp add: slice_from_def reslice_def out2_def wf_slice_def)
  have wo2: "wf_slice s1 out2" unfolding out2_def using wtl Sn by (rule wf_slice_shift)
  have lo2: "len out2 = len message" by (simp add: out2_def ltl n_def)
  have po2: "ptr out2 = ptr tl" by (simp add: out2_def)
  have no2: "apart (out2\<lparr>len := k\<rparr>) (fmb\<lparr>len := k\<rparr>)"
    using ntl by (auto simp: apart_def out2_def fmb_def k_def ltl n_def)
  define b1 where "b1 = map (\<lambda>j. (fb ! (32 + j)) XOR (M ! j)) [0..<k]"
  have b1': "map (\<lambda>j. (fb ! (32 + j)) XOR (slice_bytes s1 fmb ! j)) [0..<k] = b1"
    by (simp add: b1_def bfmb)
  define s2 where "s2 = write_bytes s1 out2 b1"
  have step7: "xor_loop s1 out2 fb fmb 0 (len fmb) = Some s2"
    using xor_loop_write [OF wfmb wo2, of k fb] no2
    by (simp add: lfmb lo2 lenfb k_def b1' [unfolded k_def] s2_def)
  define msg2 where "msg2 = message\<lparr>off := off message + k, len := len message - k, cap := cap message - k\<rparr>"
  have kl: "k \<le> len message" by (simp add: k_def)
  have step8: "slice_from message (len fmb) = Some msg2"
    using wm kl by (simp add: slice_from_def reslice_def msg2_def lfmb wf_slice_def)
  define out3 where "out3 = out2\<lparr>off := off out2 + k, len := len out2 - k, cap := cap out2 - k\<rparr>"
  have step9: "slice_from out2 (len fmb) = Some out3"
    using wo2 kl by (simp add: slice_from_def reslice_def out3_def lfmb lo2 wf_slice_def)
  have lb1: "length b1 = k" by (simp add: b1_def)
  have bm2: "slice_bytes s2 msg2 = drop k M"
  proof -
    have "apart out2 msg2"
      using ntl by (auto simp: apart_def out2_def msg2_def k_def ltl n_def)
    moreover have "wf_slice s1 msg2" unfolding msg2_def using wm1 kl by (rule wf_slice_shift)
    moreover have "length b1 \<le> len out2" by (simp add: lb1 lo2 kl)
    ultimately have "slice_bytes s2 msg2 = slice_bytes s1 msg2"
      unfolding s2_def using wo2 by (intro slice_bytes_write_apart)
    also have "\<dots> = drop k (slice_bytes s1 message)"
      unfolding msg2_def using wm1 kl by (rule slice_bytes_drop)
    finally show ?thesis by (simp add: bm1)
  qed
  define b2 where "b2 = xor_stream P (drop k M) (counter[8 := 1]) subKey"
  have lb2: "length b2 = len message - k" by (simp add: b2_def lenM)
  define c3 where "c3 = calls st @ [CallHSalsa20, CallXORKeyStream 64, CallXORKeyStream (len message - k)]"
  define s3 where "s3 = (write_bytes s1 out2 (b1 @ b2))\<lparr>calls := c3\<rparr>"
  have cs1: "calls s1 = calls st @ [CallHSalsa20, CallXORKeyStream 64]"
    by (simp add: s1_def calls_grown sa_def)
  have step10: "XORKeyStream P s2 out3 msg2 (counter[8 := 1]) subKey = Some s3"
  proof -
    have wa: "write_bytes s2 out3 b2 = write_bytes s1 out2 (b1 @ b2)"
      unfolding s2_def out3_def lb1 [symmetric]
      by (rule write_bytes_adjacent [OF wo2]) (simp add: lb1 lb2 lo2 kl)
    have cs2: "calls s2 = calls st @ [CallHSalsa20, CallXORKeyStream 64]"
      by (simp add: s2_def calls_write_bytes cs1)
    have ls: "len out3 = len message - k" "len msg2 = len message - k"
      by (simp_all add: out3_def msg2_def lo2)
    show ?thesis
      by (simp add: XORKeyStream_def bm2 b2_def [symmetric] write_bytes_calls wa cs2 ls
          s3_def c3_def)
  qed
  have body: "b1 @ b2 = spec_body P M nonce key"
  proof -
    have "drop k M = drop 32 M" using lenM by (simp add: k_def min_def)
    moreover have "b1 = map2 (XOR) (drop 32 fb) (take 32 M)"
      unfolding b1_def by (rule first_segment_eq) (simp_all add: lenfb k_def lenM)
    ultimately show ?thesis
      by (simp add: spec_body_def b2_def fb_def counter_def subKey_def)
  qed
  have bo2: "slice_bytes s3 out2 = b1 @ b2"
    using slice_bytes_write_same [OF wo2, of "b1 @ b2"] kl
    by (simp add: s3_def lb1 lb2 lo2)
  define tag where "tag = spec_tag P (spec_body P M nonce key) nonce key"
  have ltag: "length tag = Size" by (simp add: tag_def spec_tag_def)
  define s4 where "s4 = s3\<lparr>calls := calls st @ seal_calls (len message)\<rparr>"
  have cs3: "calls s3 = c3" by (simp add: s3_def)
  have step11: "Sum P s3 out2 pk = (s4, tag)"
    by (simp add: Sum_def bo2 body tag_def spec_tag_def pk_def s4_def cs3 c3_def
        seal_calls_def lo2 k_def min_def)
  define s5 where "s5 = (write_bytes s1 tl (tag @ b1 @ b2))\<lparr>calls := calls st @ seal_calls (len message)\<rparr>"
  have step12: "copy_to_slice s4 tl tag = s5"
  proof -
    have "write_bytes (write_bytes s1 out2 (b1 @ b2)) tl tag = write_bytes s1 tl (tag @ b1 @ b2)"
      unfolding out2_def ltag [symmetric]
      by (rule write_bytes_before [OF wtl]) (simp add: ltag ltl n_def lb1 lb2 kl)
    then show ?thesis using Sn
      by (simp add: copy_to_slice_def s4_def s3_def s5_def write_bytes_calls ltag)
  qed
  have fin: "(s5, hd) = (case appended st out (spec_seal P M nonce key) of
             (st', ret) \<Rightarrow> (st'\<lparr>calls := calls st @ seal_calls (len message)\<rparr>, ret))"
  proof -
    have "length (tag @ b1 @ b2) = n" by (simp add: ltag lb1 lb2 n_def kl)
    then have "(write_bytes s1 tl (tag @ b1 @ b2), hd) = appended sa out (tag @ b1 @ b2)"
      unfolding s1_def tl_def hd_def by (rule append_fill [OF wo'])
    then show ?thesis
      by (simp add: s5_def sa_def appended_calls body spec_seal_def tag_def split: prod.splits)
  qed
  show ?thesis
    unfolding Seal_def M_def [symmetric] fin [symmetric]
    by (simp add: step1 step2 step3 step4 step5 step6 step7 step8 step9 step10 step11 step12)
qed

subsection \<open>Open, statement by statement\<close>

lemma Open_eq:
  assumes wo: "wf_slice st out" and wb: "wf_slice st box" and na: "no_alias out box"
    and lb: "Overhead \<le> len box"
  shows "Open P st out box nonce key =
     (if take Size (slice_bytes st box) = spec_tag P (drop Size (slice_bytes st box)) nonce key
      then Some (case appended st out (spec_body P (drop Size (slice_bytes st box)) nonce key) of
                   (st', ret) \<Rightarrow> (st'\<lparr>calls := calls st @ open_calls (len box - Size)\<rparr>, ret, True))
      else Some (st\<lparr>calls := calls st @ reject_calls (len box - Size)\<rparr>, nil, False))"
proof -
  define B where "B = slice_bytes st box"
  define C where "C = drop Size B"
  define subKey where "subKey = spec_sub_key P nonce key"
  define counter where "counter = spec_counter nonce"
  define fb where "fb = spec_first_block P nonce key"
  define pk where "pk = spec_auth_key P nonce key"
  define n where "n = len box - Overhead"
  define k where "k = min 32 n"
  define s0 where "s0 = st\<lparr>calls := calls st @ [CallHSalsa20]\<rparr>"
  define sa where "sa = st\<lparr>calls := calls st @ [CallHSalsa20, CallXORKeyStream 64]\<rparr>"
  define sv where "sv = st\<lparr>calls := calls st @ reject_calls n\<rparr>"
  have SO: "Overhead = Size" by (simp add: Overhead_def)
  have lb': "Size \<le> len box" using lb by (simp add: SO)
  have lenB: "length B = len box"
    unfolding B_def using wb by (rule length_slice_bytes)
  have lenC: "length C = n" by (simp add: C_def lenB n_def SO)
  have lenfb: "length fb = 64" by (simp add: fb_def)
  have step0: "\<not> len box < Overhead" using lb by simp
  have step1: "setup_fn P st (replicate 32 0) (replicate 16 0) nonce key = (s0, subKey, counter)"
    by (simp add: setup_fn_eq s0_def subKey_def counter_def)
  have step2: "XORKeyStream_array P s0 (replicate 64 0) counter subKey = (sa, fb)"
    by (simp add: first_block_eq s0_def sa_def subKey_def counter_def fb_def)
  have step3: "copy_array (replicate 32 0) fb = pk"
    by (simp add: auth_key_eq fb_def pk_def)
  have wo': "wf_slice sa out" and wb': "wf_slice sa box"
    using wo wb by (simp_all add: sa_def)
  have Ba: "slice_bytes sa box = B" by (simp add: sa_def B_def)
  have step3a: "copy_array (replicate Size 0) (slice_bytes sa box) = take Size B"
    using lb' by (simp add: Ba copy_array_zero array_of_def lenB)
  define box1 where "box1 = box\<lparr>off := off box + Size, len := len box - Size, cap := cap box - Size\<rparr>"
  have step3b: "slice_from box Size = Some box1"
    using wb lb' by (simp add: slice_from_def reslice_def box1_def wf_slice_def)
  have step3c: "slice_from box Overhead = Some box1"
    using step3b by (simp add: SO)
  have wb1: "wf_slice sa box1" unfolding box1_def using wb' lb' by (rule wf_slice_shift)
  have lb1: "len box1 = n" by (simp add: box1_def n_def SO)
  have pb1: "ptr box1 = ptr box" by (simp add: box1_def)
  have Cb: "slice_bytes sa box1 = C"
    unfolding box1_def C_def Ba [symmetric] using wb' lb' by (rule slice_bytes_drop)
  have Cb': "slice_bytes st box1 = C" using Cb by (simp add: sa_def)
  have step3d: "Verify P sa (take Size B) box1 pk = (sv, take Size B = spec_tag P C nonce key)"
    by (simp add: Verify_def Cb' spec_tag_def pk_def sv_def sa_def reject_calls_def lb1)
  define s1 where "s1 = grown sv out n"
  define hd where "hd = head_slice sv out n"
  define tl where "tl = tail_slice sv out n"
  have wo'': "wf_slice sv out" and wb1': "wf_slice sv box1"
    using wo wb1 by (simp_all add: sv_def sa_def)
  have step4: "sliceForAppend sv out (len box - Overhead) = Some (s1, hd, tl)"
    using sliceForAppend_eq [OF wo'', of n] by (simp add: s1_def hd_def tl_def n_def)
  have wtl: "wf_slice s1 tl" unfolding s1_def tl_def using wo'' by (rule wf_tail_slice)
  have ltl: "len tl = n" by (simp add: tl_def len_tail_slice)
  have nab: "no_alias out box1"
    using na lb' by (auto simp: no_alias_def apart_def box1_def)
  have ntl: "apart tl box1"
    unfolding tl_def using wb1' nab by (rule apart_tail_slice)
  have wb1s: "wf_slice s1 box1" unfolding s1_def using wb1' by (rule wf_slice_grown)
  have bb1: "slice_bytes s1 box1 = C"
    using slice_bytes_grown [OF wb1', of out n] Cb by (simp add: s1_def sv_def sa_def)
  define fmb where "fmb = (if 32 < len box1 then box1\<lparr>len := 32\<rparr> else box1)"
  have step5: "(if 32 < len box1 then slice_to box1 32 else Some box1) = Some fmb"
    using wb1 by (simp add: fmb_def slice_to_def reslice_def wf_slice_def)
  have lfmb: "len fmb = k" by (simp add: fmb_def k_def lb1)
  have pfmb: "ptr fmb = ptr box1" by (simp add: fmb_def)
  have wfmb: "wf_slice s1 fmb"
    using wb1s by (simp add: fmb_def wf_slice_shorten)
  have bfmb: "slice_bytes s1 fmb = take k C"
    using bb1 lenC by (simp add: fmb_def k_def slice_bytes_take lb1)
  have no2: "apart (tl\<lparr>len := k\<rparr>) (fmb\<lparr>len := k\<rparr>)"
    using ntl by (auto simp: apart_def fmb_def k_def ltl lb1)
  define b1 where "b1 = map (\<lambda>j. (fb ! (32 + j)) XOR (C ! j)) [0..<k]"
  have b1': "map (\<lambda>j. (fb ! (32 + j)) XOR (slice_bytes s1 fmb ! j)) [0..<k] = b1"
    by (simp add: b1_def bfmb)
  define s2 where "s2 = write_bytes s1 tl b1"
  have kn: "k \<le> n" by (simp add: k_def)
  have step7: "xor_loop s1 tl fb fmb 0 (len fmb) = Some s2"
    using xor_loop_write [OF wfmb wtl, of k fb] no2 kn
    by (simp add: lfmb ltl lenfb k_def b1' [unfolded k_def] s2_def)
  define box2 where "box2 = box1\<lparr>off := off box1 + k, len := len box1 - k, cap := cap box1 - k\<rparr>"
  have step8: "slice_from box1 (len fmb) = Some box2"
    using wb1 kn by (simp add: slice_from_def reslice_def box2_def lfmb wf_slice_def lb1)
  define out3 where "out3 = tl\<lparr>off := off tl + k, len := len tl - k, cap := cap tl - k\<rparr>"
  have step9: "slice_from tl (len fmb) = Some out3"
    using wtl kn by (simp add: slice_from_def reslice_def out3_def lfmb ltl wf_slice_def)
  have lenb1: "length b1 = k" by (simp add: b1_def)
  have bm2: "slice_bytes s2 box2 = drop k C"
  proof -
    have "apart tl box2"
      using ntl by (auto simp: apart_def box2_def k_def ltl lb1)
    moreover have "wf_slice s1 box2"
      unfolding box2_def using wb1s kn [folded lb1] by (rule wf_slice_shift)
    moreover have "length b1 \<le> len tl" by (simp add: lenb1 ltl kn)
    ultimately have "slice_bytes s2 box2 = slice_bytes s1 box2"
      unfolding s2_def using wtl by (intro slice_bytes_write_apart)
    also have "\<dots> = drop k (slice_bytes s1 box1)"
      unfolding box2_def using wb1s kn [folded lb1] by (rule slice_bytes_drop)
    finally show ?thesis by (simp add: bb1)
  qed
  define b2 where "b2 = xor_stream P (drop k C) (counter[8 := 1]) subKey"
  have lenb2: "length b2 = n - k" by (simp add: b2_def lenC)
  define s3 where "s3 = (write_bytes s1 tl (b1 @ b2))\<lparr>calls := calls st @ open_calls n\<rparr>"
  have cs1: "calls s1 = calls st @ reject_calls n"
    by (simp add: s1_def calls_grown sv_def)
  have step10: "XORKeyStream P s2 out3 box2 (counter[8 := 1]) subKey = Some s3"
  proof -
    have wa: "write_bytes s2 out3 b2 = write_bytes s1 tl (b1 @ b2)"
      unfolding s2_def out3_def lenb1 [symmetric]
      by (rule write_bytes_adjacent [OF wtl]) (simp add: lenb1 lenb2 ltl kn)
    have cs2: "calls s2 = calls st @ reject_calls n"
      by (simp add: s2_def calls_write_bytes cs1)
    have ls: "len out3 = n - k" "len box2 = n - k"
      by (simp_all add: out3_def box2_def ltl lb1)
    have nk: "n - k = n - 32" by (simp add: k_def min_def)
    show ?thesis
      by (simp add: XORKeyStream_def bm2 b2_def [symmetric] write_bytes_calls wa cs2 ls nk
          s3_def open_calls_def reject_calls_def)
  qed
  have body: "b1 @ b2 = spec_body P C nonce key"
  proof -
    have "drop k C = drop 32 C" using lenC by (simp add: k_def min_def)
    moreover have "b1 = map2 (XOR) (drop 32 fb) (take 32 C)"
      unfolding b1_def by (rule first_segment_eq) (simp_all add: lenfb k_def lenC)
    ultimately show ?thesis
      by (simp add: spec_body_def b2_def fb_def counter_def subKey_def)
  qed
  have fin: "(s3, hd, True) = (case appended st out (spec_body P C nonce key) of
             (st', ret) \<Rightarrow> (st'\<lparr>calls := calls st @ open_calls n\<rparr>, ret, True))"
  proof -
    have "length (b1 @ b2) = n" by (simp add: lenb1 lenb2 kn)
    then have "(write_bytes s1 tl (b1 @ b2), hd) = appended sv out (b1 @ b2)"
      unfolding s1_def tl_def hd_def by (rule append_fill [OF wo''])
    then show ?thesis
      by (simp add: s3_def sv_def appended_calls body split: prod.splits)
  qed
  have nS: "len box - Size = n" by (simp add: n_def SO)
  show ?thesis
    unfolding Open_def B_def [symmetric] C_def [symmetric] nS fin [symmetric] sv_def [symmetric]
    by (simp add: copy_from_slice_def step0 step1 step2 step3 step3a step3b step3c step3d step4
        step5 step7 step8 step9 step10)
qed

subsection \<open>Decrypting what was encrypted\<close>

lemma spec_body_involution:
  "spec_body P (spec_body P m nonce key) nonce key = m"
proof -
  define fb where "fb = drop 32 (spec_first_block P nonce key)"
  define c where "c = (spec_counter nonce)[8 := 1]"
  define sk where "sk = spec_sub_key P nonce key"
  define A where "A = map2 (XOR) fb (take 32 m)"
  define B where "B = xor_stream P (drop 32 m) c sk"
  have lfb: "length fb = 32" by (simp add: fb_def)
  have lA: "length A = min 32 (length m)" by (simp add: A_def lfb)
  have sb: "spec_body P m nonce key = A @ B"
    by (simp add: spec_body_def A_def B_def fb_def c_def sk_def)
  have tA: "take 32 (A @ B) = A"
  proof (cases "32 \<le> length m")
    case True
    then show ?thesis by (simp add: lA)
  next
    case False
    then have "B = []" by (simp add: B_def xor_stream_def)
    then show ?thesis using False by (simp add: lA)
  qed
  have dB: "drop 32 (A @ B) = B"
  proof (cases "32 \<le> length m")
    case True
    then show ?thesis by (simp add: lA)
  next
    case False
    then have "B = []" by (simp add: B_def xor_stream_def)
    then show ?thesis using False by (simp add: lA)
  qed
  have AA: "map2 (XOR) fb A = take 32 m"
  proof (rule nth_equalityI)
    show "length (map2 (XOR) fb A) = length (take 32 m)" by (simp add: lA lfb)
  next
    fix i assume "i < length (map2 (XOR) fb A)"
    then have i: "i < 32" "i < length m" by (simp_all add: lA lfb)
    then have "A ! i = (fb ! i) XOR (m ! i)" by (simp add: A_def lfb)
    then show "map2 (XOR) fb A ! i = take 32 m ! i"
      using i by (simp add: lA lfb xor.assoc [symmetric])
  qed
  have BB: "xor_stream P B c sk = drop 32 m"
    unfolding B_def by (rule xor_stream_involution)
  have "spec_body P (A @ B) nonce key = map2 (XOR) fb (take 32 (A @ B)) @ xor_stream P (drop 32 (A @ B)) c sk"
    by (simp add: spec_body_def fb_def c_def sk_def)
  also have "\<dots> = take 32 m @ drop 32 m" by (simp only: tA dB AA BB)
  finally show ?thesis by (simp add: sb)
qed

subsection \<open>The slice that an append returns\<close>

lemma wf_slice_nil: "wf_slice st nil"
  by (simp add: wf_slice_def nil_def)

lemma no_alias_nil: "no_alias nil s"
  by (simp add: no_alias_def apart_def nil_def)

lemma appended_bytes:
  assumes "wf_slice st out"
  shows "slice_bytes (fst (appended st out new)) (snd (appended st out new))
       = slice_bytes st out @ new"
proof (cases "len out + length new \<le> cap out")
  case True
  show ?thesis
  proof (cases "ptr out")
    case None
    with True assms show ?thesis
      by (simp add: appended_def slice_bytes_def wf_slice_def)
  next
    case (Some a)
    with True assms have "a < length (heap st)" "off out + len out \<le> length (heap st ! a)"
      by (auto simp: wf_slice_def)
    then show ?thesis using True Some
      by (simp add: appended_def slice_bytes_def write_bytes_def read_append_write_at)
  qed
next
  case False
  have "length (slice_bytes st out) = len out" using assms by (rule length_slice_bytes)
  with False show ?thesis
    by (simp add: appended_def slice_bytes_def)
qed

lemma appended_wf:
  assumes "wf_slice st out"
  shows "wf_slice (fst (appended st out new)) (snd (appended st out new))"
proof (cases "len out + length new \<le> cap out")
  case True
  show ?thesis
  proof (cases "ptr out")
    case None
    with True assms show ?thesis
      by (simp add: appended_def wf_slice_def write_bytes_def)
  next
    case (Some a)
    with True assms have "a < length (heap st)" "off out + len out + length new \<le> length (heap st ! a)"
      by (auto simp: wf_slice_def)
    then show ?thesis using True Some assms
      by (simp add: appended_def wf_slice_def write_bytes_def length_write_at)
  qed
next
  case False
  have "length (slice_bytes st out) = len out" using assms by (rule length_slice_bytes)
  with False show ?thesis
    by (simp add: appended_def wf_slice_def)
qed

lemma xor_loop_calls:
  "xor_loop st out fb src i k = Some st' \<Longrightarrow> calls st' = calls st"
proof (induction k arbitrary: st i)
  case 0
  then show ?case by simp
next
  case (Suc k)
  from Suc.prems obtain x y st1 where
    "store st out i (y XOR x) = Some st1" "xor_loop st1 out fb src (Suc i) k = Some st'"
    by (auto split: bind_splits)
  moreover from this(1) have "calls st1 = calls st"
    by (auto simp: store_def split: option.splits if_splits)
  ultimately show ?case using Suc.IH by simp
qed

section \<open>What Seal and Open compute\<close>

text \<open>
  \<open>Open\<close> without any assumption on aliasing: a rejecting run, and an accepting run
  that returns.
\<close>

lemma wf_slice_ptr: "wf_slice st s \<Longrightarrow> 0 < len s \<Longrightarrow> ptr s \<noteq> None"
  by (cases "ptr s") (auto simp: wf_slice_def)

lemma Verify_eq:
  assumes wb: "wf_slice st box" and lb: "Size \<le> len box"
  shows "slice_from box Size =
           Some (box\<lparr>off := off box + Size, len := len box - Size, cap := cap box - Size\<rparr>)"
    and "copy_array (replicate Size 0) (slice_bytes st box) = take Size (slice_bytes st box)"
    and "Verify P st (take Size (slice_bytes st box))
           (box\<lparr>off := off box + Size, len := len box - Size, cap := cap box - Size\<rparr>)
           (spec_auth_key P nonce key) =
         (st\<lparr>calls := calls st @ [CallVerify (len box - Size)]\<rparr>,
          take Size (slice_bytes st box) = spec_tag P (drop Size (slice_bytes st box)) nonce key)"
proof -
  show "slice_from box Size =
           Some (box\<lparr>off := off box + Size, len := len box - Size, cap := cap box - Size\<rparr>)"
    using wb lb by (simp add: slice_from_def reslice_def wf_slice_def)
  have "length (slice_bytes st box) = len box" using wb by (rule length_slice_bytes)
  then show "copy_array (replicate Size 0) (slice_bytes st box) = take Size (slice_bytes st box)"
    using lb by (simp add: copy_array_zero array_of_def)
  have "slice_bytes st (box\<lparr>off := off box + Size, len := len box - Size, cap := cap box - Size\<rparr>)
      = drop Size (slice_bytes st box)"
    using wb lb by (rule slice_bytes_drop)
  then show "Verify P st (take Size (slice_bytes st box))
           (box\<lparr>off := off box + Size, len := len box - Size, cap := cap box - Size\<rparr>)
           (spec_auth_key P nonce key) =
         (st\<lparr>calls := calls st @ [CallVerify (len box - Size)]\<rparr>,
          take Size (slice_bytes st box) = spec_tag P (drop Size (slice_bytes st box)) nonce key)"
    by (simp add: Verify_def spec_tag_def)
qed

lemma Open_reject:
  assumes wb: "wf_slice st box" and lb: "Overhead \<le> len box"
    and bad: "take Size (slice_bytes st box) \<noteq> spec_tag P (drop Size (slice_bytes st box)) nonce key"
  shows "Open P st out box nonce key =
     Some (st\<lparr>calls := calls st @ reject_calls (len box - Size)\<rparr>, nil, False)"
proof -
  define sa where "sa = st\<lparr>calls := calls st @ [CallHSalsa20, CallXORKeyStream 64]\<rparr>"
  have lb': "Size \<le> len box" "\<not> len box < Overhead" using lb by (simp_all add: Overhead_def)
  have wb': "wf_slice sa box" using wb by (simp add: sa_def)
  have B: "slice_bytes sa box = slice_bytes st box" by (simp add: sa_def)
  note V = Verify_eq(1) [OF wb' lb'(1)] Verify_eq(2) [OF wb' lb'(1), unfolded B]
    Verify_eq(3) [OF wb' lb'(1), of P nonce key, unfolded B]
  have step2: "XORKeyStream_array P (st\<lparr>calls := calls st @ [CallHSalsa20]\<rparr>) (replicate 64 0)
      (spec_counter nonce) (spec_sub_key P nonce key) = (sa, spec_first_block P nonce key)"
    by (simp add: first_block_eq sa_def)
  have cs: "sa\<lparr>calls := calls sa @ [CallVerify (len box - Size)]\<rparr>
      = st\<lparr>calls := calls st @ reject_calls (len box - Size)\<rparr>"
    by (simp add: sa_def reject_calls_def)
  show ?thesis
    unfolding Open_def
    by (simp add: copy_from_slice_def lb' setup_fn_eq step2 auth_key_eq B V cs bad)
qed

lemma Open_accept:
  assumes wo: "wf_slice st out" and wb: "wf_slice st box" and lb: "Overhead \<le> len box"
    and good: "take Size (slice_bytes st box) = spec_tag P (drop Size (slice_bytes st box)) nonce key"
  shows "\<exists>st'. Open P st out box nonce key = Some (st', head_slice st out (len box - Size), True) \<and>
     calls st' = calls st @ open_calls (len box - Size)"
proof -
  define n where "n = len box - Size"
  define k where "k = min 32 n"
  define fb where "fb = spec_first_block P nonce key"
  define sa where "sa = st\<lparr>calls := calls st @ [CallHSalsa20, CallXORKeyStream 64]\<rparr>"
  define sv where "sv = st\<lparr>calls := calls st @ reject_calls n\<rparr>"
  have lb': "Size \<le> len box" "\<not> len box < Overhead" using lb by (simp_all add: Overhead_def)
  have nO: "len box - Overhead = n" by (simp add: n_def Overhead_def)
  have wb': "wf_slice sa box" using wb by (simp add: sa_def)
  have B: "slice_bytes sa box = slice_bytes st box" by (simp add: sa_def)
  note V = Verify_eq(1) [OF wb' lb'(1)] Verify_eq(2) [OF wb' lb'(1), unfolded B]
    Verify_eq(3) [OF wb' lb'(1), of P nonce key, unfolded B]
  have step2: "XORKeyStream_array P (st\<lparr>calls := calls st @ [CallHSalsa20]\<rparr>) (replicate 64 0)
      (spec_counter nonce) (spec_sub_key P nonce key) = (sa, fb)"
    by (simp add: first_block_eq sa_def fb_def)
  have step3: "copy_array (replicate 32 0) fb = spec_auth_key P nonce key"
    by (simp add: fb_def auth_key_eq)
  have cs: "sa\<lparr>calls := calls sa @ [CallVerify (len box - Size)]\<rparr> = sv"
    by (simp add: sa_def sv_def reject_calls_def n_def)
  define box1 where "box1 = box\<lparr>off := off box + Size, len := len box - Size, cap := cap box - Size\<rparr>"
  have step3c: "slice_from box Overhead = Some box1"
    using V(1) by (simp add: Overhead_def box1_def)
  have wb1: "wf_slice st box1" unfolding box1_def using wb lb'(1) by (rule wf_slice_shift)
  have lb1: "len box1 = n" by (simp add: box1_def n_def)
  define s1 where "s1 = grown sv out n"
  define hd where "hd = head_slice sv out n"
  define tl where "tl = tail_slice sv out n"
  have wo'': "wf_slice sv out" using wo by (simp add: sv_def)
  have step4: "sliceForAppend sv out n = Some (s1, hd, tl)"
    using sliceForAppend_eq [OF wo'', of n] by (simp add: s1_def hd_def tl_def)
  have wtl: "wf_slice s1 tl" unfolding s1_def tl_def using wo'' by (rule wf_tail_slice)
  have ltl: "len tl = n" by (simp add: tl_def len_tail_slice)
  define fmb where "fmb = (if 32 < len box1 then box1\<lparr>len := 32\<rparr> else box1)"
  have step5: "(if 32 < len box1 then slice_to box1 32 else Some box1) = Some fmb"
    using wb1 by (simp add: fmb_def slice_to_def reslice_def wf_slice_def)
  have lfmb: "len fmb = k" by (simp add: fmb_def k_def lb1)
  have kn: "k \<le> n" by (simp add: k_def)
  have ptrs: "0 < k \<longrightarrow> ptr tl \<noteq> None \<and> ptr fmb \<noteq> None"
  proof
    assume "0 < k"
    then have "0 < n" using kn by simp
    then have "ptr tl \<noteq> None" using wtl ltl by (simp add: wf_slice_ptr)
    moreover have "ptr box1 \<noteq> None" using wb1 lb1 \<open>0 < n\<close> by (simp add: wf_slice_ptr)
    then have "ptr fmb \<noteq> None" by (simp add: fmb_def)
    ultimately show "ptr tl \<noteq> None \<and> ptr fmb \<noteq> None" by simp
  qed
  obtain s2 where step7: "xor_loop s1 tl fb fmb 0 (len fmb) = Some s2"
    using xor_loop_total [OF ptrs, of 0 fb s1] kn by (auto simp: lfmb ltl fb_def k_def)
  have cs2: "calls s2 = calls st @ reject_calls n"
    using xor_loop_calls [OF step7] by (simp add: s1_def calls_grown sv_def)
  define box2 where "box2 = box1\<lparr>off := off box1 + k, len := len box1 - k, cap := cap box1 - k\<rparr>"
  have step8: "slice_from box1 (len fmb) = Some box2"
    using wb1 kn by (simp add: slice_from_def reslice_def box2_def lfmb wf_slice_def lb1)
  define out3 where "out3 = tl\<lparr>off := off tl + k, len := len tl - k, cap := cap tl - k\<rparr>"
  have step9: "slice_from tl (len fmb) = Some out3"
    using wtl kn by (simp add: slice_from_def reslice_def out3_def lfmb ltl wf_slice_def)
  have ls: "len out3 = n - k" "len box2 = n - k"
    by (simp_all add: out3_def box2_def ltl lb1)
  have nk: "n - k = n - 32" by (simp add: k_def min_def)
  define s3 where "s3 = write_bytes (s2\<lparr>calls := calls s2 @ [CallXORKeyStream (len box2)]\<rparr>) out3
     (xor_stream P (slice_bytes s2 box2) ((spec_counter nonce)[8 := 1]) (spec_sub_key P nonce key))"
  have step10: "XORKeyStream P s2 out3 box2 ((spec_counter nonce)[8 := 1]) (spec_sub_key P nonce key) = Some s3"
    by (simp add: XORKeyStream_def ls s3_def)
  have cs3: "calls s3 = calls st @ open_calls n"
    by (simp add: s3_def calls_write_bytes cs2 ls nk open_calls_def reject_calls_def)
  have hd': "hd = head_slice st out n" by (simp add: hd_def sv_def)
  have "Open P st out box nonce key = Some (s3, hd, True)"
    unfolding Open_def
    by (simp add: copy_from_slice_def lb' nO setup_fn_eq step2 step3 B V(1,2)
        V(3) [unfolded good] cs good step3c step4 step5 step7 step8 step9 step10)
  then show ?thesis using cs3 by (simp add: hd' n_def)
qed

lemma appended_len: "len (snd (appended st out new)) = len out + length new"
  by (simp add: appended_def)

lemma appended_place:
  "(if len out + length new \<le> cap out
    then snd (appended st out new) = out\<lparr>len := len out + length new\<rparr> \<and>
         length (heap (fst (appended st out new))) = length (heap st)
    else ptr (snd (appended st out new)) = Some (length (heap st)) \<and>
         off (snd (appended st out new)) = 0 \<and>
         heap (fst (appended st out new)) = heap st @ [slice_bytes st out @ new])"
  by (simp add: appended_def length_heap_write_bytes)

lemma Seal_result:
  assumes "wf_slice st out" "wf_slice st message" "no_alias out message"
  shows "\<exists>st' ret. Seal P st out message nonce key = Some (st', ret) \<and>
     heap st' = heap (fst (appended st out (spec_seal P (slice_bytes st message) nonce key))) \<and>
     ret = snd (appended st out (spec_seal P (slice_bytes st message) nonce key)) \<and>
     calls st' = calls st @ seal_calls (len message) \<and>
     wf_slice st' ret \<and>
     slice_bytes st' ret = slice_bytes st out @ spec_seal P (slice_bytes st message) nonce key"
proof -
  let ?new = "spec_seal P (slice_bytes st message) nonce key"
  obtain s r where ap: "appended st out ?new = (s, r)" by force
  have "Seal P st out message nonce key = Some (s\<lparr>calls := calls st @ seal_calls (len message)\<rparr>, r)"
    using Seal_eq [OF assms, of P nonce key] by (simp add: ap)
  moreover have "wf_slice s r" using appended_wf [OF assms(1), of ?new] by (simp add: ap)
  moreover have "slice_bytes s r = slice_bytes st out @ ?new"
    using appended_bytes [OF assms(1), of ?new] by (simp add: ap)
  ultimately show ?thesis by (simp add: ap)
qed

lemma Open_result:
  assumes "wf_slice st out" "wf_slice st box" "no_alias out box" "Overhead \<le> len box"
    and "take Size (slice_bytes st box) = spec_tag P (drop Size (slice_bytes st box)) nonce key"
  shows "\<exists>st' ret. Open P st out box nonce key = Some (st', ret, True) \<and>
     heap st' = heap (fst (appended st out (spec_body P (drop Size (slice_bytes st box)) nonce key))) \<and>
     ret = snd (appended st out (spec_body P (drop Size (slice_bytes st box)) nonce key)) \<and>
     calls st' = calls st @ open_calls (len box - Size) \<and>
     wf_slice st' ret \<and>
     slice_bytes st' ret = slice_bytes st out @ spec_body P (drop Size (slice_bytes st box)) nonce key"
proof -
  let ?new = "spec_body P (drop Size (slice_bytes st box)) nonce key"
  obtain s r where ap: "appended st out ?new = (s, r)" by force
  have "Open P st out box nonce key = Some (s\<lparr>calls := calls st @ open_calls (len box - Size)\<rparr>, r, True)"
    using Open_eq [OF assms(1-4), of P nonce key] assms(5) by (simp add: ap)
  moreover have "wf_slice s r" using appended_wf [OF assms(1), of ?new] by (simp add: ap)
  moreover have "slice_bytes s r = slice_bytes st out @ ?new"
    using appended_bytes [OF assms(1), of ?new] by (simp add: ap)
  ultimately show ?thesis by (simp add: ap)
qed

lemma slice_bytes_nil: "slice_bytes st nil = []"
  by (simp add: slice_bytes_def nil_def)

lemma spec_seal_split:
  "take Size (spec_seal P m nonce key) = spec_tag P (spec_body P m nonce key) nonce key"
  "drop Size (spec_seal P m nonce key) = spec_body P m nonce key"
  by (simp_all add: spec_seal_def spec_tag_def)

lemma Open_short:
  "len box < Overhead \<Longrightarrow> Open P st out box nonce key = Some (st, nil, False)"
  by (simp add: Open_def)

section \<open>The concrete inputs are well formed\<close>

lemma test_wf:
  "wf_slice test_state test_message" "wf_slice test_state test_short"
  "wf_slice test_state test_box" "wf_slice test_state test_bad_box"
  "wf_slice test_state test_out"
  by (simp_all add: wf_slice_def test_state_def test_message_def test_short_def test_box_def
      test_bad_box_def test_out_def)

lemma test_good:
  "take Size (slice_bytes test_state test_box)
     = spec_tag test_prims (drop Size (slice_bytes test_state test_box)) test_nonce test_key"
  by code_simp

lemma test_bad:
  "take Size (slice_bytes test_state test_bad_box)
     \<noteq> spec_tag test_prims (drop Size (slice_bytes test_state test_bad_box)) test_nonce test_key"
  by code_simp

lemma test_plain:
  "spec_body test_prims (drop Size (slice_bytes test_state test_box)) test_nonce test_key = [1, 2, 3, 4, 5]"
  by code_simp

section \<open>Sealing then opening\<close>

text \<open>
  Claim C1. For every key \<open>K\<close>, nonce \<open>N\<close> and message \<open>M\<close> of any length (the empty
  message included), sealing then opening round-trips:
  \<open>Open(nil, Seal(nil, M, N, K), N, K)\<close> returns \<open>(M, true)\<close>. The message is a
  well-formed slice of the store; \<open>Seal\<close> returns a box in the new store, and \<open>Open\<close>
  on that box returns \<open>true\<close> and a slice whose bytes are the bytes of the message.
\<close>

theorem Seal_Open_roundtrip:
  assumes "wf_slice st message"
  shows "\<exists>st1 box st2 ret.
     Seal P st nil message nonce key = Some (st1, box) \<and>
     Open P st1 nil box nonce key = Some (st2, ret, True) \<and>
     slice_bytes st2 ret = slice_bytes st message"
proof -
  let ?m = "slice_bytes st message"
  obtain st1 box where seal: "Seal P st nil message nonce key = Some (st1, box)"
    and wfb: "wf_slice st1 box"
    and bytes: "slice_bytes st1 box = slice_bytes st nil @ spec_seal P ?m nonce key"
    using Seal_result [OF wf_slice_nil assms no_alias_nil, of P nonce key] by blast
  have b: "slice_bytes st1 box = spec_seal P ?m nonce key"
    using bytes by (simp add: slice_bytes_nil)
  have "len box = length (spec_seal P ?m nonce key)"
    using length_slice_bytes [OF wfb] b by simp
  then have lb: "Overhead \<le> len box" by (simp add: length_spec_seal Overhead_def)
  have good: "take Size (slice_bytes st1 box) = spec_tag P (drop Size (slice_bytes st1 box)) nonce key"
    by (simp add: b spec_seal_split)
  obtain st2 ret where op: "Open P st1 nil box nonce key = Some (st2, ret, True)"
    and "slice_bytes st2 ret =
           slice_bytes st1 nil @ spec_body P (drop Size (slice_bytes st1 box)) nonce key"
    using Open_result [OF wf_slice_nil wfb no_alias_nil lb good] by blast
  then have "slice_bytes st2 ret = ?m"
    by (simp add: b spec_seal_split spec_body_involution slice_bytes_nil)
  with seal op show ?thesis by blast
qed

theorem Seal_Open_roundtrip_witness:
  "wf_slice test_state test_message \<and>
   (\<exists>st1 box st2 ret.
     Seal test_prims test_state nil test_message test_nonce test_key = Some (st1, box) \<and>
     Open test_prims st1 nil box test_nonce test_key = Some (st2, ret, True) \<and>
     slice_bytes st2 ret = [1, 2, 3, 4, 5])"
proof -
  have wf: "wf_slice test_state test_message"
    by (simp add: wf_slice_def test_state_def test_message_def)
  have "slice_bytes test_state test_message = [1, 2, 3, 4, 5]"
    by (simp add: slice_bytes_def test_state_def test_message_def)
  with wf Seal_Open_roundtrip [OF wf, of test_prims test_nonce test_key] show ?thesis by simp
qed

section \<open>Authentication before decryption\<close>

text \<open>
  Claim C2. For every key, nonce and box of length at least \<open>Overhead\<close>, \<open>Open\<close>
  verifies the tag (the first \<open>Overhead\<close> bytes of the box, checked against the
  remaining bytes under the authenticator key derived from the first keystream block)
  before it decrypts anything. If the tag does not verify, \<open>Open\<close> returns the nil slice
  and \<open>false\<close>; the store is the one it was given, so no plaintext byte has been
  produced, and the only primitive calls made are the sub-key derivation, the first
  keystream block and the verification. If the tag verifies, the decrypting call of
  \<open>XORKeyStream\<close> comes after the call of \<open>Verify\<close>. The comparison inside \<open>Verify\<close>
  belongs to the external authenticator; its timing is not part of the embedding.
\<close>

theorem Open_authenticates_first:
  assumes "wf_slice st box" "Overhead \<le> len box"
  shows "(take Overhead (slice_bytes st box) \<noteq>
            array_of Size (poly1305 P (drop Overhead (slice_bytes st box)) (spec_auth_key P nonce key)) \<longrightarrow>
          Open P st out box nonce key =
            Some (st\<lparr>calls := calls st @
                    [CallHSalsa20, CallXORKeyStream 64, CallVerify (len box - Overhead)]\<rparr>,
                  nil, False)) \<and>
         (wf_slice st out \<and>
          take Overhead (slice_bytes st box) =
            array_of Size (poly1305 P (drop Overhead (slice_bytes st box)) (spec_auth_key P nonce key)) \<longrightarrow>
          (\<exists>st' ret. Open P st out box nonce key = Some (st', ret, True) \<and>
             calls st' = calls st @
               [CallHSalsa20, CallXORKeyStream 64, CallVerify (len box - Overhead),
                CallXORKeyStream (len box - Overhead - 32)]))"
proof (intro conjI impI)
  assume "take Overhead (slice_bytes st box) \<noteq>
            array_of Size (poly1305 P (drop Overhead (slice_bytes st box)) (spec_auth_key P nonce key))"
  then have "take Size (slice_bytes st box) \<noteq> spec_tag P (drop Size (slice_bytes st box)) nonce key"
    by (simp add: Overhead_def spec_tag_def)
  from Open_reject [OF assms this]
  show "Open P st out box nonce key =
            Some (st\<lparr>calls := calls st @
                    [CallHSalsa20, CallXORKeyStream 64, CallVerify (len box - Overhead)]\<rparr>,
                  nil, False)"
    by (simp add: reject_calls_def Overhead_def)
next
  assume a: "wf_slice st out \<and>
          take Overhead (slice_bytes st box) =
            array_of Size (poly1305 P (drop Overhead (slice_bytes st box)) (spec_auth_key P nonce key))"
  then have "take Size (slice_bytes st box) = spec_tag P (drop Size (slice_bytes st box)) nonce key"
    by (simp add: Overhead_def spec_tag_def)
  from Open_accept [OF _ assms this, of out] a
  show "\<exists>st' ret. Open P st out box nonce key = Some (st', ret, True) \<and>
             calls st' = calls st @
               [CallHSalsa20, CallXORKeyStream 64, CallVerify (len box - Overhead),
                CallXORKeyStream (len box - Overhead - 32)]"
    by (auto simp: open_calls_def Overhead_def)
qed

theorem Open_authenticates_first_witness:
  "(wf_slice test_state test_bad_box \<and> Overhead \<le> len test_bad_box \<and>
    Open test_prims test_state test_out test_bad_box test_nonce test_key =
      Some (test_state\<lparr>calls := [CallHSalsa20, CallXORKeyStream 64, CallVerify 5]\<rparr>, nil, False)) \<and>
   (wf_slice test_state test_box \<and> Overhead \<le> len test_box \<and> wf_slice test_state test_out \<and>
    (\<exists>st' ret. Open test_prims test_state test_out test_box test_nonce test_key = Some (st', ret, True) \<and>
       calls st' = [CallHSalsa20, CallXORKeyStream 64, CallVerify 5, CallXORKeyStream 0]))"
proof -
  have l: "Overhead = 16" "len test_bad_box = 21" "len test_box = 21" "calls test_state = []"
    by (simp_all add: Overhead_def Size_def test_bad_box_def test_box_def test_state_def)
  have lb: "Overhead \<le> len test_bad_box" "Overhead \<le> len test_box" by (simp_all add: l)
  have bad: "take Overhead (slice_bytes test_state test_bad_box) \<noteq>
     array_of Size (poly1305 test_prims (drop Overhead (slice_bytes test_state test_bad_box))
       (spec_auth_key test_prims test_nonce test_key))"
    using test_bad by (simp add: Overhead_def spec_tag_def)
  have good: "take Overhead (slice_bytes test_state test_box) =
     array_of Size (poly1305 test_prims (drop Overhead (slice_bytes test_state test_box))
       (spec_auth_key test_prims test_nonce test_key))"
    using test_good by (simp add: Overhead_def spec_tag_def)
  have 1: "Open test_prims test_state test_out test_bad_box test_nonce test_key =
      Some (test_state\<lparr>calls := [CallHSalsa20, CallXORKeyStream 64, CallVerify 5]\<rparr>, nil, False)"
    using Open_authenticates_first [OF test_wf(4) lb(1), of test_prims test_nonce test_key test_out]
      bad by (simp add: l)
  have 2: "\<exists>st' ret. Open test_prims test_state test_out test_box test_nonce test_key = Some (st', ret, True) \<and>
       calls st' = [CallHSalsa20, CallXORKeyStream 64, CallVerify 5, CallXORKeyStream 0]"
    using Open_authenticates_first [OF test_wf(3) lb(2), of test_prims test_nonce test_key test_out]
      good test_wf(5) by (simp add: l)
  show ?thesis by (intro conjI test_wf lb 1 2)
qed

section \<open>The length of a sealed box\<close>

text \<open>
  Claim C3. For every message, the empty one included, the output of \<open>Seal\<close> on an
  empty \<open>out\<close> buffer has length exactly \<open>len(message) + Overhead\<close>, where
  \<open>Overhead\<close> is the tag size of the one-time authenticator, 16 bytes; for the empty
  message the output is the tag alone.
\<close>

theorem Seal_length:
  assumes "wf_slice st out" "wf_slice st message" "no_alias out message" "len out = 0"
  shows "\<exists>st' ret. Seal P st out message nonce key = Some (st', ret) \<and>
     len ret = len message + Overhead \<and>
     length (slice_bytes st' ret) = len message + Overhead \<and>
     Overhead = 16 \<and>
     (len message = 0 \<longrightarrow> slice_bytes st' ret = spec_tag P [] nonce key)"
proof -
  let ?m = "slice_bytes st message"
  obtain st' ret where seal: "Seal P st out message nonce key = Some (st', ret)"
    and ret: "ret = snd (appended st out (spec_seal P ?m nonce key))"
    and bytes: "slice_bytes st' ret = slice_bytes st out @ spec_seal P ?m nonce key"
    using Seal_result [OF assms(1-3), of P nonce key] by blast
  have lm: "length ?m = len message" using assms(2) by (rule length_slice_bytes)
  have lo: "slice_bytes st out = []"
    using length_slice_bytes [OF assms(1)] assms(4) by simp
  have l1: "len ret = len message + Overhead"
    by (simp add: ret appended_len length_spec_seal lm assms(4) Overhead_def)
  have l2: "length (slice_bytes st' ret) = len message + Overhead"
    by (simp add: bytes lo length_spec_seal lm Overhead_def)
  have l3: "Overhead = 16" by (simp add: Overhead_def Size_def)
  have l4: "len message = 0 \<longrightarrow> slice_bytes st' ret = spec_tag P [] nonce key"
  proof
    assume "len message = 0"
    then have "?m = []" using lm by simp
    then show "slice_bytes st' ret = spec_tag P [] nonce key"
      by (simp add: bytes lo spec_seal_def spec_body_def xor_stream_def)
  qed
  show ?thesis
    by (rule exI [of _ st'], rule exI [of _ ret]) (intro conjI seal l1 l2 l3 l4)
qed

theorem Seal_length_witness:
  "(wf_slice test_state nil \<and> wf_slice test_state test_message \<and> no_alias nil test_message \<and>
    len nil = 0 \<and>
    (\<exists>st' ret. Seal test_prims test_state nil test_message test_nonce test_key = Some (st', ret) \<and>
       len ret = 21 \<and> length (slice_bytes st' ret) = 21)) \<and>
   (wf_slice test_state test_empty \<and> no_alias test_empty nil \<and>
    (\<exists>st' ret. Seal test_prims test_state test_empty nil test_nonce test_key = Some (st', ret) \<and>
       len ret = 16 \<and> length (slice_bytes st' ret) = 16 \<and>
       slice_bytes st' ret = spec_tag test_prims [] test_nonce test_key))"
proof -
  have a: "wf_slice test_state nil" "no_alias nil test_message" "len nil = 0"
    by (simp_all add: wf_slice_nil no_alias_nil) (simp add: nil_def)
  have b: "wf_slice test_state test_empty" "no_alias test_empty nil"
    "len test_empty = 0"
    by (simp_all add: wf_slice_def test_state_def test_empty_def no_alias_def apart_def nil_def)
  have l: "len test_message = 5" "len nil = 0" "Overhead = 16"
    by (simp_all add: test_message_def nil_def Overhead_def Size_def)
  show ?thesis
    using Seal_length [OF a(1) test_wf(1) a(2,3), of test_prims test_nonce test_key]
      Seal_length [OF b(1) wf_slice_nil b(2,3), of test_prims test_nonce test_key]
    by (simp add: a b test_wf l)
qed

section \<open>The counter derived from the nonce\<close>

text \<open>
  Claim C4 says that the 16-byte counter which \<open>setup\<close> derives for \<open>Seal\<close> and
  \<open>Open\<close> has its low 8 bytes equal to zero and its high bytes equal to the second
  half of the nonce. Both functions call \<open>setup\<close> on a zeroed counter array. Reading
  the low 8 bytes as the bytes at indices 0 to 7 and the high bytes as those at indices
  8 to 15, the claim fails: \<open>copy(counter[:], nonce[16:])\<close> puts the nonce's second half
  at indices 0 to 7, and the bytes at indices 8 to 15, the block counter, stay zero.
\<close>

theorem setup_counter_low_bytes_counterexample:
  "\<not> (take 8 (snd (snd (setup_fn test_prims test_state (replicate 32 0) (replicate 16 0)
                          test_nonce test_key))) = replicate 8 0 \<and>
      drop 8 (snd (snd (setup_fn test_prims test_state (replicate 32 0) (replicate 16 0)
                          test_nonce test_key))) = drop 16 test_nonce)"
proof -
  have "snd (snd (setup_fn test_prims test_state (replicate 32 0) (replicate 16 0)
                    test_nonce test_key)) = spec_counter test_nonce"
    by (simp add: setup_fn_eq)
  moreover have "take 8 (spec_counter test_nonce) \<noteq> replicate 8 0"
    by code_simp
  ultimately show ?thesis by simp
qed

text \<open>
  Claim C4, amended. For a 24-byte nonce, the counter that \<open>setup\<close> derives in \<open>Seal\<close>
  and \<open>Open\<close> has its first 8 bytes (indices 0 to 7) equal to the second half of the
  nonce (nonce bytes 16 to 23) and its last 8 bytes (indices 8 to 15) equal to zero.
\<close>

theorem setup_counter_layout:
  assumes "length nonce = 24"
  shows "snd (snd (setup_fn P st (replicate 32 0) (replicate 16 0) nonce key)) =
           drop 16 nonce @ replicate 8 0 \<and>
         take 8 (snd (snd (setup_fn P st (replicate 32 0) (replicate 16 0) nonce key))) =
           drop 16 nonce \<and>
         drop 8 (snd (snd (setup_fn P st (replicate 32 0) (replicate 16 0) nonce key))) =
           replicate 8 0"
  using assms by (simp add: setup_fn_eq spec_counter_def array_of_def)

theorem setup_counter_layout_witness:
  "length test_nonce = 24 \<and>
   snd (snd (setup_fn test_prims test_state (replicate 32 0) (replicate 16 0) test_nonce test_key)) =
     [116, 117, 118, 119, 120, 121, 122, 123, 0, 0, 0, 0, 0, 0, 0, 0]"
proof -
  have l: "length test_nonce = 24" by (simp add: test_nonce_def)
  have "drop 16 test_nonce @ replicate 8 0 = [116, 117, 118, 119, 120, 121, 122, 123, 0, 0, 0, 0, 0, 0, 0, 0]"
    by code_simp
  with setup_counter_layout [OF l, of test_prims test_state test_key] l show ?thesis by simp
qed

section \<open>The keystream schedule\<close>

text \<open>
  Claim C5. \<open>Seal\<close> generates its first 64-byte keystream block by encrypting 64 zero
  bytes under the sub-key and counter that \<open>setup\<close> derives; the authenticator key is
  the first 32 bytes of that block; the first \<open>min(32, len(message))\<close> message bytes are
  XORed with the last 32 bytes of the block; then byte 8 of the counter (the block
  index) is set to 1 and the rest of the message is stream-encrypted under sub-key and
  counter. \<open>Open\<close> derives the same block and the same schedule. In the theorem, the
  bytes that \<open>Seal\<close> appends after the tag are \<open>spec_body\<close> of the message, the tag is
  computed under the first 32 bytes of \<open>spec_first_block\<close>, the bytes that \<open>Open\<close>
  appends are \<open>spec_body\<close> of the box without its tag, and the log shows the primitive
  calls: one block of 64 bytes, then the remainder beyond the first 32 bytes.
\<close>

theorem Seal_Open_keystream_schedule:
  assumes "wf_slice st out" "wf_slice st src" "no_alias out src"
  shows "setup_fn P st (replicate 32 0) (replicate 16 0) nonce key =
           (st\<lparr>calls := calls st @ [CallHSalsa20]\<rparr>, spec_sub_key P nonce key, spec_counter nonce) \<and>
     (\<exists>st' ret. Seal P st out src nonce key = Some (st', ret) \<and>
        take Size (drop (len out) (slice_bytes st' ret)) =
          array_of Size (poly1305 P (spec_body P (slice_bytes st src) nonce key)
                           (take 32 (spec_first_block P nonce key))) \<and>
        drop (len out + Size) (slice_bytes st' ret) = spec_body P (slice_bytes st src) nonce key \<and>
        calls st' = calls st @
          [CallHSalsa20, CallXORKeyStream 64, CallXORKeyStream (len src - 32), CallSum (len src)]) \<and>
     (Overhead \<le> len src \<and>
      take Size (slice_bytes st src) =
        array_of Size (poly1305 P (drop Size (slice_bytes st src))
                         (take 32 (spec_first_block P nonce key))) \<longrightarrow>
      (\<exists>st' ret. Open P st out src nonce key = Some (st', ret, True) \<and>
         drop (len out) (slice_bytes st' ret) =
           spec_body P (drop Size (slice_bytes st src)) nonce key \<and>
         calls st' = calls st @
           [CallHSalsa20, CallXORKeyStream 64, CallVerify (len src - Size),
            CallXORKeyStream (len src - Size - 32)]))"
proof (intro conjI impI)
  show "setup_fn P st (replicate 32 0) (replicate 16 0) nonce key =
           (st\<lparr>calls := calls st @ [CallHSalsa20]\<rparr>, spec_sub_key P nonce key, spec_counter nonce)"
    by (rule setup_fn_eq)
next
  let ?m = "slice_bytes st src"
  have lo: "length (slice_bytes st out) = len out" using assms(1) by (rule length_slice_bytes)
  obtain st' ret where seal: "Seal P st out src nonce key = Some (st', ret)"
    and bytes: "slice_bytes st' ret = slice_bytes st out @ spec_seal P ?m nonce key"
    and cs: "calls st' = calls st @ seal_calls (len src)"
    using Seal_result [OF assms, of P nonce key] by blast
  have "take Size (drop (len out) (slice_bytes st' ret)) =
          array_of Size (poly1305 P (spec_body P ?m nonce key) (take 32 (spec_first_block P nonce key)))"
    by (simp add: bytes lo spec_seal_def spec_tag_def spec_auth_key_def)
  moreover have "drop (len out + Size) (slice_bytes st' ret) = spec_body P ?m nonce key"
    by (simp add: bytes lo spec_seal_def spec_tag_def)
  moreover note seal cs [unfolded seal_calls_def]
  ultimately show "\<exists>st' ret. Seal P st out src nonce key = Some (st', ret) \<and>
        take Size (drop (len out) (slice_bytes st' ret)) =
          array_of Size (poly1305 P (spec_body P (slice_bytes st src) nonce key)
                           (take 32 (spec_first_block P nonce key))) \<and>
        drop (len out + Size) (slice_bytes st' ret) = spec_body P (slice_bytes st src) nonce key \<and>
        calls st' = calls st @
          [CallHSalsa20, CallXORKeyStream 64, CallXORKeyStream (len src - 32), CallSum (len src)]"
    by blast
next
  assume a: "Overhead \<le> len src \<and>
      take Size (slice_bytes st src) =
        array_of Size (poly1305 P (drop Size (slice_bytes st src))
                         (take 32 (spec_first_block P nonce key)))"
  then have good: "take Size (slice_bytes st src) = spec_tag P (drop Size (slice_bytes st src)) nonce key"
    by (simp add: spec_tag_def spec_auth_key_def)
  have lo: "length (slice_bytes st out) = len out" using assms(1) by (rule length_slice_bytes)
  obtain st' ret where op: "Open P st out src nonce key = Some (st', ret, True)"
    and bytes: "slice_bytes st' ret =
       slice_bytes st out @ spec_body P (drop Size (slice_bytes st src)) nonce key"
    and cs: "calls st' = calls st @ open_calls (len src - Size)"
    using Open_result [OF assms _ good] a by blast
  have "drop (len out) (slice_bytes st' ret) = spec_body P (drop Size (slice_bytes st src)) nonce key"
    by (simp add: bytes lo)
  with op cs [unfolded open_calls_def]
  show "\<exists>st' ret. Open P st out src nonce key = Some (st', ret, True) \<and>
         drop (len out) (slice_bytes st' ret) =
           spec_body P (drop Size (slice_bytes st src)) nonce key \<and>
         calls st' = calls st @
           [CallHSalsa20, CallXORKeyStream 64, CallVerify (len src - Size),
            CallXORKeyStream (len src - Size - 32)]"
    by blast
qed

theorem Seal_Open_keystream_schedule_witness:
  "(wf_slice test_state test_out \<and> wf_slice test_state test_message \<and>
    no_alias test_out test_message \<and>
    (\<exists>st' ret. Seal test_prims test_state test_out test_message test_nonce test_key = Some (st', ret) \<and>
       drop (len test_out + Size) (slice_bytes st' ret) =
         spec_body test_prims (slice_bytes test_state test_message) test_nonce test_key)) \<and>
   (wf_slice test_state test_box \<and> no_alias test_out test_box \<and> Overhead \<le> len test_box \<and>
    (\<exists>st' ret. Open test_prims test_state test_out test_box test_nonce test_key = Some (st', ret, True) \<and>
       drop (len test_out) (slice_bytes st' ret) = [1, 2, 3, 4, 5]))"
proof -
  have na: "no_alias test_out test_message" "no_alias test_out test_box"
    by (simp_all add: no_alias_def apart_def test_out_def test_message_def test_box_def)
  have lb: "Overhead \<le> len test_box" by (simp add: Overhead_def Size_def test_box_def)
  have good: "take Size (slice_bytes test_state test_box) =
        array_of Size (poly1305 test_prims (drop Size (slice_bytes test_state test_box))
                         (take 32 (spec_first_block test_prims test_nonce test_key)))"
    using test_good by (simp add: spec_tag_def spec_auth_key_def)
  show ?thesis
    using Seal_Open_keystream_schedule [OF test_wf(5) test_wf(1) na(1), of test_prims test_nonce test_key]
      Seal_Open_keystream_schedule [OF test_wf(5) test_wf(3) na(2), of test_prims test_nonce test_key]
      test_wf na lb good test_plain
    by (auto simp del: upt_Suc)
qed

section \<open>The tag and the layout of the output\<close>

text \<open>
  Claim C6. The tag that \<open>Seal\<close> produces is computed with the derived authenticator
  key over the whole ciphertext body and nothing else (the tag itself is not part of
  the authenticated bytes), and what \<open>Seal\<close> appends to \<open>out\<close> is the tag followed by
  the ciphertext body.
\<close>

theorem Seal_tag_then_body:
  assumes "wf_slice st out" "wf_slice st message" "no_alias out message"
  shows "\<exists>st' ret tag body.
     Seal P st out message nonce key = Some (st', ret) \<and>
     slice_bytes st' ret = slice_bytes st out @ tag @ body \<and>
     length tag = Size \<and> length body = len message \<and>
     body = spec_body P (slice_bytes st message) nonce key \<and>
     tag = array_of Size (poly1305 P body (spec_auth_key P nonce key)) \<and>
     calls st' = calls st @
       [CallHSalsa20, CallXORKeyStream 64, CallXORKeyStream (len message - 32),
        CallSum (length body)]"
proof -
  let ?m = "slice_bytes st message"
  let ?body = "spec_body P ?m nonce key"
  let ?tag = "array_of Size (poly1305 P ?body (spec_auth_key P nonce key))"
  have lm: "length ?m = len message" using assms(2) by (rule length_slice_bytes)
  obtain st' ret where seal: "Seal P st out message nonce key = Some (st', ret)"
    and bytes: "slice_bytes st' ret = slice_bytes st out @ spec_seal P ?m nonce key"
    and cs: "calls st' = calls st @ seal_calls (len message)"
    using Seal_result [OF assms, of P nonce key] by blast
  have b: "slice_bytes st' ret = slice_bytes st out @ ?tag @ ?body"
    by (simp add: bytes spec_seal_def spec_tag_def)
  have c: "calls st' = calls st @
       [CallHSalsa20, CallXORKeyStream 64, CallXORKeyStream (len message - 32),
        CallSum (length ?body)]"
    by (simp add: cs seal_calls_def lm)
  have l: "length ?tag = Size" "length ?body = len message" by (simp_all add: lm)
  show ?thesis
    by (rule exI [of _ st'], rule exI [of _ ret], rule exI [of _ ?tag], rule exI [of _ ?body])
       (intro conjI seal b l c refl)
qed

theorem Seal_tag_then_body_witness:
  "wf_slice test_state test_out \<and> wf_slice test_state test_message \<and>
   no_alias test_out test_message \<and>
   (\<exists>st' ret tag body.
     Seal test_prims test_state test_out test_message test_nonce test_key = Some (st', ret) \<and>
     slice_bytes st' ret = [7, 7] @ tag @ body \<and>
     length tag = 16 \<and> length body = 5 \<and>
     body = spec_body test_prims [1, 2, 3, 4, 5] test_nonce test_key \<and>
     tag = array_of 16 (poly1305 test_prims body (spec_auth_key test_prims test_nonce test_key)))"
proof -
  have na: "no_alias test_out test_message"
    by (simp add: no_alias_def apart_def test_out_def test_message_def)
  have v: "slice_bytes test_state test_out = [7, 7]"
    "slice_bytes test_state test_message = [1, 2, 3, 4, 5]" "Size = 16" "len test_message = 5"
    by (simp_all add: slice_bytes_def test_state_def test_out_def test_message_def Size_def
        numeral_eq_Suc)
  from Seal_tag_then_body [OF test_wf(5) test_wf(1) na, of test_prims test_nonce test_key]
  obtain st' ret tag body where
    "Seal test_prims test_state test_out test_message test_nonce test_key = Some (st', ret)"
    "slice_bytes st' ret = [7, 7] @ tag @ body" "length tag = 16" "length body = 5"
    "body = spec_body test_prims [1, 2, 3, 4, 5] test_nonce test_key"
    "tag = array_of 16 (poly1305 test_prims body (spec_auth_key test_prims test_nonce test_key))"
    unfolding v by blast
  then show ?thesis using test_wf(5) test_wf(1) na by blast
qed

section \<open>Open on a box shorter than the tag\<close>

text \<open>
  Claim C7. For every nonce, key and box with \<open>len(box) < Overhead\<close>, \<open>Open\<close> returns
  the nil slice and \<open>false\<close> at once: the state it returns is the state it was given,
  so no backing array has been allocated or written (the store is unchanged) and no
  primitive has been called (the call log is unchanged).
\<close>

theorem Open_short_box:
  "len box < Overhead \<Longrightarrow> Open P st out box nonce key = Some (st, nil, False)"
  by (simp add: Open_def)

theorem Open_short_box_witness:
  "len test_short < Overhead \<and>
   Open test_prims test_state nil test_short test_nonce test_key = Some (test_state, nil, False)"
  using Open_short_box [of test_short test_prims test_state nil test_nonce test_key]
  by (simp add: test_short_def Overhead_def Size_def)

section \<open>Open never reads or writes out of bounds\<close>

text \<open>
  Claim C8. For every nonce, key and box of any length, truncated and corrupted boxes
  included, every index and slice expression of \<open>Open\<close> is in bounds: \<open>Open\<close> returns
  a result (it is never \<open>None\<close>, the model's panic), and the result is \<open>true\<close> exactly
  when the box has at least \<open>Overhead\<close> bytes and its tag verifies; a bad box fails by
  the length check or by the tag check. The slices \<open>out\<close> and \<open>box\<close> are well formed,
  as every Go slice is; they may alias.
\<close>

theorem Open_never_panics:
  assumes "wf_slice st out" "wf_slice st box"
  shows "\<exists>st' ret. Open P st out box nonce key =
     Some (st', ret,
           Overhead \<le> len box \<and>
           take Overhead (slice_bytes st box) =
             array_of Size (poly1305 P (drop Overhead (slice_bytes st box))
                              (spec_auth_key P nonce key)))"
proof (cases "len box < Overhead")
  case True
  then show ?thesis by (simp add: Open_short)
next
  case False
  then have lb: "Overhead \<le> len box" by simp
  show ?thesis
  proof (cases "take Size (slice_bytes st box) = spec_tag P (drop Size (slice_bytes st box)) nonce key")
    case True
    from Open_accept [OF assms lb True] obtain st' where
      "Open P st out box nonce key = Some (st', head_slice st out (len box - Size), True)"
      by blast
    then show ?thesis using lb True by (simp add: Overhead_def spec_tag_def)
  next
    case False
    from Open_reject [OF assms(2) lb False, of out]
    show ?thesis using False by (simp add: Overhead_def spec_tag_def)
  qed
qed

theorem Open_never_panics_witness:
  "(wf_slice test_state test_out \<and> wf_slice test_state test_short \<and>
    (\<exists>st' ret. Open test_prims test_state test_out test_short test_nonce test_key =
       Some (st', ret, False))) \<and>
   (wf_slice test_state test_bad_box \<and>
    (\<exists>st' ret. Open test_prims test_state test_out test_bad_box test_nonce test_key =
       Some (st', ret, False))) \<and>
   (wf_slice test_state test_box \<and>
    (\<exists>st' ret. Open test_prims test_state test_out test_box test_nonce test_key =
       Some (st', ret, True)))"
proof -
  have l: "Overhead = 16" "len test_bad_box = 21" "len test_box = 21" "len test_short = 3"
    by (simp_all add: Overhead_def Size_def test_bad_box_def test_box_def test_short_def)
  have bad: "take 16 (slice_bytes test_state test_bad_box) \<noteq>
     array_of Size (poly1305 test_prims (drop 16 (slice_bytes test_state test_bad_box))
       (spec_auth_key test_prims test_nonce test_key))"
    using test_bad by (simp add: Size_def spec_tag_def)
  have good: "take 16 (slice_bytes test_state test_box) =
     array_of Size (poly1305 test_prims (drop 16 (slice_bytes test_state test_box))
       (spec_auth_key test_prims test_nonce test_key))"
    using test_good by (simp add: Size_def spec_tag_def)
  have 1: "\<exists>st' ret. Open test_prims test_state test_out test_short test_nonce test_key =
       Some (st', ret, False)"
    using Open_never_panics [OF test_wf(5) test_wf(2), of test_prims test_nonce test_key]
    by (simp add: l)
  have 2: "\<exists>st' ret. Open test_prims test_state test_out test_bad_box test_nonce test_key =
       Some (st', ret, False)"
    using Open_never_panics [OF test_wf(5) test_wf(4), of test_prims test_nonce test_key] bad
    by (simp add: l)
  have 3: "\<exists>st' ret. Open test_prims test_state test_out test_box test_nonce test_key =
       Some (st', ret, True)"
    using Open_never_panics [OF test_wf(5) test_wf(3), of test_prims test_nonce test_key] good
    by (simp add: l)
  show ?thesis by (intro conjI test_wf 1 2 3)
qed

section \<open>Appending to the caller's buffer\<close>

text \<open>
  Claim C9. \<open>Seal\<close> and \<open>Open\<close> append to the caller's \<open>out\<close>: when input and output
  do not alias, the returned slice holds the prior contents of \<open>out\<close> followed by the
  new output. When the capacity of \<open>out\<close> suffices the returned slice is \<open>out\<close>
  itself, lengthened, and no backing array is allocated; otherwise the returned slice
  is a fresh backing array, the only one allocated, which holds the prior contents and
  the new output.
\<close>

theorem Seal_Open_append:
  assumes "wf_slice st out" "wf_slice st src" "no_alias out src"
  shows "(\<exists>st' ret. Seal P st out src nonce key = Some (st', ret) \<and>
        slice_bytes st' ret = slice_bytes st out @ spec_seal P (slice_bytes st src) nonce key \<and>
        (if len out + (len src + Overhead) \<le> cap out
         then ret = out\<lparr>len := len out + (len src + Overhead)\<rparr> \<and>
              length (heap st') = length (heap st)
         else ptr ret = Some (length (heap st)) \<and> off ret = 0 \<and>
              heap st' = heap st @ [slice_bytes st' ret])) \<and>
     (Overhead \<le> len src \<and>
      take Size (slice_bytes st src) = spec_tag P (drop Size (slice_bytes st src)) nonce key \<longrightarrow>
      (\<exists>st' ret. Open P st out src nonce key = Some (st', ret, True) \<and>
         slice_bytes st' ret =
           slice_bytes st out @ spec_body P (drop Size (slice_bytes st src)) nonce key \<and>
         (if len out + (len src - Overhead) \<le> cap out
          then ret = out\<lparr>len := len out + (len src - Overhead)\<rparr> \<and>
               length (heap st') = length (heap st)
          else ptr ret = Some (length (heap st)) \<and> off ret = 0 \<and>
               heap st' = heap st @ [slice_bytes st' ret])))"
proof (intro conjI impI)
  let ?new = "spec_seal P (slice_bytes st src) nonce key"
  have lm: "length (slice_bytes st src) = len src" using assms(2) by (rule length_slice_bytes)
  have ln: "length ?new = len src + Overhead" by (simp add: length_spec_seal lm Overhead_def)
  obtain st' ret where seal: "Seal P st out src nonce key = Some (st', ret)"
    and h: "heap st' = heap (fst (appended st out ?new))"
    and r: "ret = snd (appended st out ?new)"
    and bytes: "slice_bytes st' ret = slice_bytes st out @ ?new"
    using Seal_result [OF assms, of P nonce key] by blast
  have "if len out + (len src + Overhead) \<le> cap out
         then ret = out\<lparr>len := len out + (len src + Overhead)\<rparr> \<and>
              length (heap st') = length (heap st)
         else ptr ret = Some (length (heap st)) \<and> off ret = 0 \<and>
              heap st' = heap st @ [slice_bytes st' ret]"
    using appended_place [of out ?new st] by (simp add: ln h r bytes [unfolded r] split: if_splits)
  with seal bytes
  show "\<exists>st' ret. Seal P st out src nonce key = Some (st', ret) \<and>
        slice_bytes st' ret = slice_bytes st out @ spec_seal P (slice_bytes st src) nonce key \<and>
        (if len out + (len src + Overhead) \<le> cap out
         then ret = out\<lparr>len := len out + (len src + Overhead)\<rparr> \<and>
              length (heap st') = length (heap st)
         else ptr ret = Some (length (heap st)) \<and> off ret = 0 \<and>
              heap st' = heap st @ [slice_bytes st' ret])"
    by blast
next
  assume a: "Overhead \<le> len src \<and>
      take Size (slice_bytes st src) = spec_tag P (drop Size (slice_bytes st src)) nonce key"
  let ?new = "spec_body P (drop Size (slice_bytes st src)) nonce key"
  have lm: "length (slice_bytes st src) = len src" using assms(2) by (rule length_slice_bytes)
  have ln: "length ?new = len src - Overhead" by (simp add: lm Overhead_def)
  obtain st' ret where op: "Open P st out src nonce key = Some (st', ret, True)"
    and h: "heap st' = heap (fst (appended st out ?new))"
    and r: "ret = snd (appended st out ?new)"
    and bytes: "slice_bytes st' ret = slice_bytes st out @ ?new"
    using Open_result [OF assms, of P nonce key] a by blast
  have "if len out + (len src - Overhead) \<le> cap out
          then ret = out\<lparr>len := len out + (len src - Overhead)\<rparr> \<and>
               length (heap st') = length (heap st)
          else ptr ret = Some (length (heap st)) \<and> off ret = 0 \<and>
               heap st' = heap st @ [slice_bytes st' ret]"
    using appended_place [of out ?new st] by (simp add: lm Overhead_def h r bytes [unfolded r] split: if_splits)
  with op bytes
  show "\<exists>st' ret. Open P st out src nonce key = Some (st', ret, True) \<and>
         slice_bytes st' ret =
           slice_bytes st out @ spec_body P (drop Size (slice_bytes st src)) nonce key \<and>
         (if len out + (len src - Overhead) \<le> cap out
          then ret = out\<lparr>len := len out + (len src - Overhead)\<rparr> \<and>
               length (heap st') = length (heap st)
          else ptr ret = Some (length (heap st)) \<and> off ret = 0 \<and>
               heap st' = heap st @ [slice_bytes st' ret])"
    by blast
qed

theorem Seal_Open_append_witness:
  "(wf_slice test_state test_out \<and> wf_slice test_state test_message \<and>
    no_alias test_out test_message \<and>
    (\<exists>st' ret. Seal test_prims test_state test_out test_message test_nonce test_key = Some (st', ret) \<and>
       slice_bytes st' ret = [7, 7] @ spec_seal test_prims [1, 2, 3, 4, 5] test_nonce test_key \<and>
       ret = test_out\<lparr>len := 23\<rparr> \<and> length (heap st') = 5)) \<and>
   (wf_slice test_state nil \<and> no_alias nil test_message \<and>
    (\<exists>st' ret. Seal test_prims test_state nil test_message test_nonce test_key = Some (st', ret) \<and>
       slice_bytes st' ret = spec_seal test_prims [1, 2, 3, 4, 5] test_nonce test_key \<and>
       ptr ret = Some 5 \<and> off ret = 0 \<and> heap st' = heap test_state @ [slice_bytes st' ret])) \<and>
   (wf_slice test_state test_box \<and> no_alias test_out test_box \<and> Overhead \<le> len test_box \<and>
    (\<exists>st' ret. Open test_prims test_state test_out test_box test_nonce test_key = Some (st', ret, True) \<and>
       slice_bytes st' ret = [7, 7, 1, 2, 3, 4, 5] \<and>
       ret = test_out\<lparr>len := 7\<rparr> \<and> length (heap st') = 5)) \<and>
   (wf_slice test_state test_front \<and> wf_slice test_state test_back \<and>
    no_alias test_front test_back \<and>
    (\<exists>st' ret. Seal test_prims test_state test_front test_back test_nonce test_key = Some (st', ret) \<and>
       slice_bytes st' ret = [7, 7] @ spec_seal test_prims [7, 7, 7, 7, 7] test_nonce test_key \<and>
       ret = test_front\<lparr>len := 23\<rparr> \<and> length (heap st') = 5))"
proof -
  have w4: "wf_slice test_state test_front" "wf_slice test_state test_back"
    "no_alias test_front test_back"
    by (simp_all add: wf_slice_def no_alias_def apart_def test_state_def test_front_def
        test_back_def)
  have v4: "slice_bytes test_state test_front = [7, 7]"
    "slice_bytes test_state test_back = [7, 7, 7, 7, 7]"
    "len test_front = 2" "cap test_front = 30" "len test_back = 5"
    "length (heap test_state) = 5"
    by (simp_all add: slice_bytes_def test_state_def test_front_def test_back_def numeral_eq_Suc)
  have 4: "\<exists>st' ret. Seal test_prims test_state test_front test_back test_nonce test_key = Some (st', ret) \<and>
       slice_bytes st' ret = [7, 7] @ spec_seal test_prims [7, 7, 7, 7, 7] test_nonce test_key \<and>
       ret = test_front\<lparr>len := 23\<rparr> \<and> length (heap st') = 5"
    using Seal_Open_append [OF w4, of test_prims test_nonce test_key]
    by (simp add: v4 Overhead_def Size_def)
  have na: "no_alias test_out test_message" "no_alias test_out test_box"
    by (simp_all add: no_alias_def apart_def test_out_def test_message_def test_box_def)
  have v: "slice_bytes test_state test_out = [7, 7]"
    "slice_bytes test_state test_message = [1, 2, 3, 4, 5]"
    "slice_bytes test_state nil = []"
    by (simp_all add: slice_bytes_def test_state_def test_out_def test_message_def nil_def
        numeral_eq_Suc)
  have l: "Overhead = 16" "len test_message = 5" "len test_out = 2" "cap test_out = 40"
    "len test_box = 21" "len nil = 0" "cap nil = 0" "length (heap test_state) = 5"
    by (simp_all add: Overhead_def Size_def test_message_def test_out_def test_box_def nil_def
        test_state_def)
  have lb: "Overhead \<le> len test_box" by (simp add: l)
  have 1: "\<exists>st' ret. Seal test_prims test_state test_out test_message test_nonce test_key = Some (st', ret) \<and>
       slice_bytes st' ret = [7, 7] @ spec_seal test_prims [1, 2, 3, 4, 5] test_nonce test_key \<and>
       ret = test_out\<lparr>len := 23\<rparr> \<and> length (heap st') = 5"
    using Seal_Open_append [OF test_wf(5) test_wf(1) na(1), of test_prims test_nonce test_key]
    by (simp add: v l)
  have 2: "\<exists>st' ret. Seal test_prims test_state nil test_message test_nonce test_key = Some (st', ret) \<and>
       slice_bytes st' ret = spec_seal test_prims [1, 2, 3, 4, 5] test_nonce test_key \<and>
       ptr ret = Some 5 \<and> off ret = 0 \<and> heap st' = heap test_state @ [slice_bytes st' ret]"
    using Seal_Open_append [OF wf_slice_nil test_wf(1) no_alias_nil, of test_prims
        test_nonce test_key]
    by (simp add: v l)
  have 3: "\<exists>st' ret. Open test_prims test_state test_out test_box test_nonce test_key = Some (st', ret, True) \<and>
       slice_bytes st' ret = [7, 7, 1, 2, 3, 4, 5] \<and>
       ret = test_out\<lparr>len := 7\<rparr> \<and> length (heap st') = 5"
    using Seal_Open_append [OF test_wf(5) test_wf(3) na(2), of test_prims test_nonce test_key]
      test_good lb
    by (simp add: v l test_plain)
  show ?thesis
    by (intro conjI test_wf na wf_slice_nil no_alias_nil lb w4 1 2 3 4)
qed

section \<open>The failure paths of Open\<close>

text \<open>
  Claim C10. On every failure path of \<open>Open\<close>, a box shorter than \<open>Overhead\<close> or a tag
  that does not verify, the returned slice is nil (not the caller's \<open>out\<close>) and the
  store is unchanged: \<open>out\<close> is neither grown nor written to. Conversely, whenever
  \<open>Open\<close> returns \<open>false\<close> the slice is nil and the store is unchanged, so every write
  to the output happens after the tag has verified.
\<close>

theorem Open_failure_leaves_out:
  assumes "wf_slice st box"
  shows "(len box < Overhead \<or>
          take Overhead (slice_bytes st box) \<noteq>
            array_of Size (poly1305 P (drop Overhead (slice_bytes st box))
                             (spec_auth_key P nonce key)) \<longrightarrow>
          (\<exists>st'. Open P st out box nonce key = Some (st', nil, False) \<and> heap st' = heap st)) \<and>
         (\<forall>st' ret. wf_slice st out \<and> Open P st out box nonce key = Some (st', ret, False) \<longrightarrow>
            ret = nil \<and> heap st' = heap st)"
proof -
  let ?bad = "take Overhead (slice_bytes st box) \<noteq>
            array_of Size (poly1305 P (drop Overhead (slice_bytes st box))
                             (spec_auth_key P nonce key))"
  have tag: "?bad \<longleftrightarrow>
     take Size (slice_bytes st box) \<noteq> spec_tag P (drop Size (slice_bytes st box)) nonce key"
    by (simp add: Overhead_def spec_tag_def)
  have fail: "\<exists>st'. Open P st out box nonce key = Some (st', nil, False) \<and> heap st' = heap st"
    if "len box < Overhead \<or> ?bad"
  proof (cases "len box < Overhead")
    case True
    then show ?thesis by (simp add: Open_short)
  next
    case False
    with that have lb: "Overhead \<le> len box" and bad: ?bad by simp_all
    from Open_reject [OF assms lb bad [unfolded tag], of out] show ?thesis by simp
  qed
  have ok: "ret = nil \<and> heap st' = heap st"
    if "wf_slice st out" "Open P st out box nonce key = Some (st', ret, False)" for st' ret
  proof (cases "len box < Overhead \<or> ?bad")
    case True
    from fail [OF this] that(2) show ?thesis by auto
  next
    case False
    then have lb: "Overhead \<le> len box" and good: "\<not> ?bad" by simp_all
    from good have "take Size (slice_bytes st box) = spec_tag P (drop Size (slice_bytes st box)) nonce key"
      unfolding tag by simp
    from Open_accept [OF that(1) assms lb this] that(2) show ?thesis by auto
  qed
  show ?thesis
  proof (rule conjI)
    show "len box < Overhead \<or> ?bad \<longrightarrow>
      (\<exists>st'. Open P st out box nonce key = Some (st', nil, False) \<and> heap st' = heap st)"
      using fail by (rule impI)
  next
    show "\<forall>st' ret. wf_slice st out \<and> Open P st out box nonce key = Some (st', ret, False) \<longrightarrow>
            ret = nil \<and> heap st' = heap st"
    proof (intro allI impI)
      fix st' ret
      assume "wf_slice st out \<and> Open P st out box nonce key = Some (st', ret, False)"
      then have "wf_slice st out" "Open P st out box nonce key = Some (st', ret, False)"
        by simp_all
      then show "ret = nil \<and> heap st' = heap st" by (rule ok)
    qed
  qed
qed

theorem Open_failure_leaves_out_witness:
  "(wf_slice test_state test_short \<and> len test_short < Overhead \<and>
    (\<exists>st'. Open test_prims test_state test_out test_short test_nonce test_key = Some (st', nil, False) \<and>
       heap st' = heap test_state)) \<and>
   (wf_slice test_state test_bad_box \<and>
    take Overhead (slice_bytes test_state test_bad_box) \<noteq>
      array_of Size (poly1305 test_prims (drop Overhead (slice_bytes test_state test_bad_box))
        (spec_auth_key test_prims test_nonce test_key)) \<and>
    (\<exists>st'. Open test_prims test_state test_out test_bad_box test_nonce test_key = Some (st', nil, False) \<and>
       heap st' = heap test_state))"
proof -
  have s: "len test_short < Overhead"
    by (simp add: Overhead_def Size_def test_short_def)
  have bad: "take Overhead (slice_bytes test_state test_bad_box) \<noteq>
     array_of Size (poly1305 test_prims (drop Overhead (slice_bytes test_state test_bad_box))
       (spec_auth_key test_prims test_nonce test_key))"
    using test_bad by (simp add: Overhead_def spec_tag_def)
  have 1: "\<exists>st'. Open test_prims test_state test_out test_short test_nonce test_key = Some (st', nil, False) \<and>
       heap st' = heap test_state"
    using Open_failure_leaves_out [OF test_wf(2), of test_prims test_nonce test_key test_out] s
    by simp
  have 2: "\<exists>st'. Open test_prims test_state test_out test_bad_box test_nonce test_key = Some (st', nil, False) \<and>
       heap st' = heap test_state"
    using Open_failure_leaves_out [OF test_wf(4), of test_prims test_nonce test_key test_out] bad
    by simp
  show ?thesis by (intro conjI test_wf s bad 1 2)
qed

end
